theory Spec2Isabelle
  imports Complex_Main "HOL-Library.Log_Nat"
begin

section \<open>Conduit: the foveated panorama optimizer and its frame-rate profiler\<close>

text \<open>
  A shallow embedding of \<^verbatim>\<open>src/optimizer/optimizer.cpp\<close> and of the
  \<^verbatim>\<open>FramerateProfiler\<close> of \<^verbatim>\<open>src/util/timer.hpp\<close>.

  \<^item> A C++ \<^verbatim>\<open>int\<close> is a HOL \<open>int\<close>. The integer arithmetic of the source stays far
    inside the 32-bit range for the angles and image dimensions it is given (sums of two
    image dimensions are taken to fit), so no wrap-around is written out; the one
    operation that leaves the range on ordinary inputs, the conversion of a
    \<^verbatim>\<open>double\<close> to \<^verbatim>\<open>int\<close>, is checked (\<open>d2i\<close>). Division and remainder truncate
    towards zero (\<open>tdiv\<close>, \<open>tmod\<close>).
  \<^item> A \<^verbatim>\<open>double\<close> is the rational number it denotes, and every arithmetic operation
    rounds its exact result to the nearest binary64 number, ties to even (\<open>fl\<close>), with
    no wider intermediate precision. The exponent range is not modelled: no magnitude
    here comes near it.
  \<^item> A failed contract macro, an exception of the image library and undefined
    behaviour are values of the type \<open>error\<close>.
  \<^item> The phases of \<^verbatim>\<open>Timer\<close> (\<^verbatim>\<open>start\<close>, \<^verbatim>\<open>stop\<close>) print in debug builds and do nothing
    otherwise; they are left out.
\<close>

subsection \<open>Errors\<close>

datatype error = ContractViolation | CvException | UndefinedBehaviour

definition bindE :: "error + 'a \<Rightarrow> ('a \<Rightarrow> error + 'b) \<Rightarrow> error + 'b" where
  "bindE m f = (case m of Inl e \<Rightarrow> Inl e | Inr x \<Rightarrow> f x)"

text \<open>
  Modelled from the spec: the contract macros \<^verbatim>\<open>REQUIRES\<close>, \<^verbatim>\<open>ASSERT\<close> and
  \<^verbatim>\<open>ENSURES\<close> come from a header that is not among the sources. The spec reports a
  violated contract as fatal: the function fails with a contract-violation error and
  produces no output. Each macro takes the rest of the function as its continuation.
\<close>

definition REQUIRES :: "bool \<Rightarrow> error + 'a \<Rightarrow> error + 'a" where
  "REQUIRES c k = (if c then k else Inl ContractViolation)"

definition ASSERT :: "bool \<Rightarrow> error + 'a \<Rightarrow> error + 'a" where
  "ASSERT c k = (if c then k else Inl ContractViolation)"

definition ENSURES :: "bool \<Rightarrow> error + 'a \<Rightarrow> error + 'a" where
  "ENSURES c k = (if c then k else Inl ContractViolation)"

subsection \<open>Machine arithmetic\<close>

definition tdiv :: "int \<Rightarrow> int \<Rightarrow> int" where
  "tdiv a b = sgn a * sgn b * (\<bar>a\<bar> div \<bar>b\<bar>)"

definition tmod :: "int \<Rightarrow> int \<Rightarrow> int" where
  "tmod a b = sgn a * (\<bar>a\<bar> mod \<bar>b\<bar>)"

type_synonym double = rat

definition pow2 :: "int \<Rightarrow> rat" where
  "pow2 k = (if 0 \<le> k then 2 ^ nat k else 1 / 2 ^ nat (- k))"

text \<open>The binary exponent of a positive number: \<open>2 ^ expo x \<le> x < 2 ^ (expo x + 1)\<close>.\<close>

definition expo :: "rat \<Rightarrow> int" where
  "expo x = (if 1 \<le> x then bitlen \<lfloor>x\<rfloor> - 1 else - bitlen (\<lceil>1 / x\<rceil> - 1))"

definition round_even :: "rat \<Rightarrow> int" where
  "round_even q = (let f = \<lfloor>q\<rfloor>; r = q - of_int f in
     if r < 1 / 2 then f else if 1 / 2 < r then f + 1 else if even f then f else f + 1)"

text \<open>Rounding to a significand of 53 bits, nearest, ties to even.\<close>

definition fl :: "rat \<Rightarrow> double" where
  "fl x = (if x = 0 then 0 else
     let s = 52 - expo \<bar>x\<bar> in sgn x * of_int (round_even (\<bar>x\<bar> * pow2 s)) * pow2 (- s))"

definition i2d :: "int \<Rightarrow> double" where
  "i2d n = fl (of_int n)"

definition trunc :: "rat \<Rightarrow> int" where
  "trunc x = (if 0 \<le> x then \<lfloor>x\<rfloor> else \<lceil>x\<rceil>)"

text \<open>
  The conversion \<^verbatim>\<open>double\<close> to \<^verbatim>\<open>int\<close> discards the fraction; when the result does
  not fit the 32-bit \<^verbatim>\<open>int\<close> the behaviour of the C++ program is undefined.
\<close>

definition d2i :: "double \<Rightarrow> error + int" where
  "d2i x = (let t = trunc x in
     if - (2 ^ 31) \<le> t \<and> t < 2 ^ 31 then Inr t else Inl UndefinedBehaviour)"

text \<open>\<^verbatim>\<open>fmod\<close> of the C library is exact: the result has the sign of \<open>x\<close>.\<close>

definition fmod :: "double \<Rightarrow> double \<Rightarrow> double" where
  "fmod x y = x - y * of_int (trunc (x / y))"

subsection \<open>Angles\<close>

definition CROP_ANGLE :: int where "CROP_ANGLE = 180"
definition H_FOCUS_ANGLE :: int where "H_FOCUS_ANGLE = 30"
definition V_FOCUS_ANGLE :: int where "V_FOCUS_ANGLE = 30"
definition BLUR_FACTOR :: int where "BLUR_FACTOR = 3"

text \<open>The overload \<^verbatim>\<open>constrainAngle(int)\<close>.\<close>

definition constrainAngle :: "int \<Rightarrow> error + int" where
  "constrainAngle x0 =
    (let x = tmod x0 360;
         x = (if x < 0 then x + 360 else x)
     in ENSURES (0 \<le> x \<and> x < 360) (Inr x))"

text \<open>The overload \<^verbatim>\<open>constrainAngle(double)\<close>.\<close>

definition constrainAngle_d :: "double \<Rightarrow> error + double" where
  "constrainAngle_d x0 =
    (let x = fmod x0 360;
         x = (if x < 0 then fl (x + 360) else x)
     in ENSURES (0 \<le> x \<and> x < 360) (Inr x))"

definition clamp :: "int \<Rightarrow> int \<Rightarrow> int \<Rightarrow> int" where
  "clamp x lo hi = max lo (min x hi)"

subsection \<open>The frame-rate profiler\<close>

definition MAX_SAMPLES :: int where "MAX_SAMPLES = 100"

record FramerateProfiler =
  tickindex :: int
  ticksum :: double
  ticklist :: "int list"
  samplesCollected :: int
  frameStart :: double

text \<open>The constructor zeroes the array; the other members have their initialisers.\<close>

definition newProfiler :: FramerateProfiler where
  "newProfiler = \<lparr> tickindex = 0, ticksum = 0, ticklist = replicate (nat MAX_SAMPLES) 0,
     samplesCollected = 0, frameStart = 0 \<rparr>"

text \<open>
  \<^verbatim>\<open>profileFrame\<close>. The array \<^verbatim>\<open>ticklist\<close> is declared \<^verbatim>\<open>int\<close>, so storing the frame
  time converts it, and the value subtracted later is the converted one.
\<close>

definition profileFrame :: "FramerateProfiler \<Rightarrow> double \<Rightarrow> error + FramerateProfiler" where
  "profileFrame p frameTime =
    (let s1 = fl (ticksum p - i2d (ticklist p ! nat (tickindex p)));
         s2 = fl (s1 + frameTime)
     in bindE (d2i frameTime) (\<lambda>stored.
          Inr (p\<lparr> ticksum := s2,
                  ticklist := (ticklist p)[nat (tickindex p) := stored],
                  tickindex := tmod (tickindex p + 1) MAX_SAMPLES,
                  samplesCollected :=
                    (if samplesCollected p < MAX_SAMPLES then samplesCollected p + 1
                     else samplesCollected p) \<rparr>)))"

text \<open>
  \<^verbatim>\<open>startFrame\<close> and \<^verbatim>\<open>finishFrame\<close> read the processor clock; the reading of
  \<^verbatim>\<open>Timer::timeInSeconds()\<close> is the argument \<open>now\<close>.
\<close>

definition startFrame :: "FramerateProfiler \<Rightarrow> double \<Rightarrow> FramerateProfiler" where
  "startFrame p now = p\<lparr> frameStart := now \<rparr>"

definition finishFrame :: "FramerateProfiler \<Rightarrow> double \<Rightarrow> error + FramerateProfiler" where
  "finishFrame p now = profileFrame p (fl (now - frameStart p))"

definition getFramerate :: "FramerateProfiler \<Rightarrow> double" where
  "getFramerate p =
    (if ticksum p = 0 then 0 else fl (i2d (samplesCollected p) / ticksum p))"

text \<open>
  A run of frames: each pair is the clock reading at \<^verbatim>\<open>startFrame\<close> and the one at
  \<^verbatim>\<open>finishFrame\<close>.
\<close>

fun runFrames :: "FramerateProfiler \<Rightarrow> (double \<times> double) list \<Rightarrow> error + FramerateProfiler" where
  "runFrames p [] = Inr p"
| "runFrames p ((t0, t1) # fs) = bindE (finishFrame (startFrame p t0) t1) (\<lambda>p'. runFrames p' fs)"

text \<open>
  The rolling average in the spec's words: the number of samples in the window (at
  most 100) over the sum of the frame times in the window, zero when that sum is zero.
  It is what the profiler is compared with, not part of the program.
\<close>

definition spec_framerate :: "rat list \<Rightarrow> rat" where
  "spec_framerate ts =
     (let n = min (length ts) 100; s = sum_list (take n (rev ts))
      in if s = 0 then 0 else of_nat n / s)"

text \<open>A run of \<open>n\<close> frames of half a second each, back to back from clock reading 0.\<close>

definition halfSecondFrames :: "nat \<Rightarrow> (double \<times> double) list" where
  "halfSecondFrames n = map (\<lambda>k. (of_nat k / 2, (of_nat k + 1) / 2)) [0..<n]"

subsection \<open>Pixel buffers\<close>

text \<open>
  A \<^verbatim>\<open>cv::Mat\<close> is a header over reference-counted pixel storage: copying a header
  (the copy constructor, assignment) and taking a sub-range both share the storage, and
  a write through one header is seen through every other. The store is the list of
  allocations, an allocation is addressed by its position and indexed by row and
  column, and a header names its allocation, the offset of its first pixel and its
  dimensions. The element type \<open>'p\<close> is one for all buffers; its zero is
  \<^verbatim>\<open>cv::Scalar(0,0,0)\<close>.
\<close>

type_synonym 'p heap = "(int \<Rightarrow> int \<Rightarrow> 'p) list"

record Mat =
  buf :: nat
  row0 :: int
  col0 :: int
  rows :: int
  cols :: int

definition pixel :: "'p heap \<Rightarrow> Mat \<Rightarrow> int \<Rightarrow> int \<Rightarrow> 'p" where
  "pixel h m r c = (h ! buf m) (row0 m + r) (col0 m + c)"

definition Mat_empty :: "Mat \<Rightarrow> bool" where
  "Mat_empty m \<longleftrightarrow> rows m \<le> 0 \<or> cols m \<le> 0"

text \<open>\<^verbatim>\<open>image.size()\<close>: a \<^verbatim>\<open>cv::Size\<close> is (width, height).\<close>

definition Mat_size :: "Mat \<Rightarrow> int \<times> int" where
  "Mat_size m = (cols m, rows m)"

datatype Range = Range int int | Range_all

text \<open>
  What the image library leaves open in this model: the contents of storage that has
  been allocated and not yet written, and the interpolation of \<^verbatim>\<open>cv::resize\<close> (from
  the source pixels, the source size and the destination size, both as (width,
  height), to the destination pixels).
\<close>

record 'p cvlib =
  fresh :: "int \<Rightarrow> int \<Rightarrow> 'p"
  interpolate :: "(int \<Rightarrow> int \<Rightarrow> 'p) \<Rightarrow> int \<times> int \<Rightarrow> int \<times> int \<Rightarrow> int \<Rightarrow> int \<Rightarrow> 'p"

text \<open>
  The primitives of the image library, after the spec's pixel buffer contract.
  \<^verbatim>\<open>Mat(m, rowRange, colRange)\<close> and \<^verbatim>\<open>m(rowRange, colRange)\<close> give a view of the
  same storage and throw when a range is not inside the matrix.
\<close>

definition subMat :: "Mat \<Rightarrow> Range \<Rightarrow> Range \<Rightarrow> error + Mat" where
  "subMat m rowRange colRange =
    bindE (case rowRange of
             Range_all \<Rightarrow> Inr m
           | Range s e \<Rightarrow>
               if 0 \<le> s \<and> s \<le> e \<and> e \<le> rows m
               then Inr (m\<lparr> row0 := row0 m + s, rows := e - s \<rparr>)
               else Inl CvException)
      (\<lambda>m1. case colRange of
             Range_all \<Rightarrow> Inr m1
           | Range s e \<Rightarrow>
               if 0 \<le> s \<and> s \<le> e \<and> e \<le> cols m
               then Inr (m1\<lparr> col0 := col0 m + s, cols := e - s \<rparr>)
               else Inl CvException)"

text \<open>\<^verbatim>\<open>Mat(rows, cols, type)\<close>: new storage, not yet written.\<close>

definition newMat :: "'p cvlib \<Rightarrow> 'p heap \<Rightarrow> int \<Rightarrow> int \<Rightarrow> error + (Mat \<times> 'p heap)" where
  "newMat lib h r c =
    (if 0 \<le> r \<and> 0 \<le> c
     then Inr (\<lparr> buf = length h, row0 = 0, col0 = 0, rows = r, cols = c \<rparr>, h @ [fresh lib])
     else Inl CvException)"

definition inside :: "Mat \<Rightarrow> int \<Rightarrow> int \<Rightarrow> bool" where
  "inside m r c \<longleftrightarrow> row0 m \<le> r \<and> r < row0 m + rows m \<and> col0 m \<le> c \<and> c < col0 m + cols m"

text \<open>\<^verbatim>\<open>m.setTo(v)\<close> writes every pixel of the view.\<close>

definition setTo :: "'p heap \<Rightarrow> Mat \<Rightarrow> 'p \<Rightarrow> 'p heap" where
  "setTo h m v = h[buf m := (\<lambda>r c. if inside m r c then v else (h ! buf m) r c)]"

text \<open>
  \<^verbatim>\<open>src.copyTo(dst)\<close>: nothing happens for an empty source; a destination of the
  source's dimensions is written in place, through to the storage it views; any other
  destination header is given new storage, which leaves the old storage as it was. The
  header \<^verbatim>\<open>dst\<close> is not used again by the caller here, so the store is the result.
  The source is read as it was before the call; a source that overlaps the destination
  is outside this model (the encoder never makes one: the surround is its newest
  allocation).
\<close>

definition copyTo :: "'p heap \<Rightarrow> Mat \<Rightarrow> Mat \<Rightarrow> 'p heap" where
  "copyTo h src dst =
    (if Mat_empty src then h
     else if rows dst = rows src \<and> cols dst = cols src
     then h[buf dst := (\<lambda>r c. if inside dst r c
                                then pixel h src (r - row0 dst) (c - col0 dst)
                                else (h ! buf dst) r c)]
     else h @ [pixel h src])"

text \<open>
  \<^verbatim>\<open>cv::resize(src, dst, dsize)\<close> throws for an empty source or an empty destination
  size and writes the interpolated image to new storage.
\<close>

definition resize :: "'p cvlib \<Rightarrow> 'p heap \<Rightarrow> Mat \<Rightarrow> int \<times> int \<Rightarrow> error + (Mat \<times> 'p heap)" where
  "resize lib h src dsize =
    (if Mat_empty src \<or> fst dsize \<le> 0 \<or> snd dsize \<le> 0 then Inl CvException
     else Inr (\<lparr> buf = length h, row0 = 0, col0 = 0, rows = snd dsize, cols = fst dsize \<rparr>,
               h @ [interpolate lib (pixel h src) (Mat_size src) dsize]))"

text \<open>
  Modelled from the spec: \<^verbatim>\<open>ImageUtil::hconcat2\<close> and \<^verbatim>\<open>ImageUtil::hconcat3\<close> are not
  among the sources. The spec's contract: horizontally concatenate two or three
  buffers of equal height and matching pixel type. The result is new storage; buffers
  of different heights are refused as the image library refuses them.
\<close>

definition hconcat2 :: "'p heap \<Rightarrow> Mat \<Rightarrow> Mat \<Rightarrow> error + (Mat \<times> 'p heap)" where
  "hconcat2 h a b =
    (if rows a \<noteq> rows b then Inl CvException
     else Inr (\<lparr> buf = length h, row0 = 0, col0 = 0, rows = rows a, cols = cols a + cols b \<rparr>,
               h @ [\<lambda>r c. if c < cols a then pixel h a r c else pixel h b r (c - cols a)]))"

definition hconcat3 :: "'p heap \<Rightarrow> Mat \<Rightarrow> Mat \<Rightarrow> Mat \<Rightarrow> error + (Mat \<times> 'p heap)" where
  "hconcat3 h a b c =
    (if rows a \<noteq> rows b \<or> rows a \<noteq> rows c then Inl CvException
     else Inr (\<lparr> buf = length h, row0 = 0, col0 = 0, rows = rows a,
                 cols = cols a + cols b + cols c \<rparr>,
               h @ [\<lambda>r x. if x < cols a then pixel h a r x
                           else if x < cols a + cols b then pixel h b r (x - cols a)
                           else pixel h c r (x - cols a - cols b)]))"

subsection \<open>The optimizer\<close>

record OptimizedImage =
  focused :: Mat
  blurred :: Mat
  focusRow :: int
  focusCol :: int
  fullSize :: "int \<times> int"
  leftBuffer :: int

text \<open>
  The constructor: \<^verbatim>\<open>Mat(focused)\<close> and \<^verbatim>\<open>Mat(blurred)\<close> copy the headers, so the
  record's matrices view the storage of the arguments.
\<close>

definition newOptimizedImage :: "Mat \<Rightarrow> Mat \<Rightarrow> int \<Rightarrow> int \<Rightarrow> int \<times> int \<Rightarrow> int \<Rightarrow> OptimizedImage" where
  "newOptimizedImage f b fRow fCol fSize lBuffer =
    \<lparr> focused = f, blurred = b, focusRow = fRow, focusCol = fCol,
      fullSize = fSize, leftBuffer = lBuffer \<rparr>"

definition cropHorizontallyWrapped :: "'p heap \<Rightarrow> Mat \<Rightarrow> int \<Rightarrow> int \<Rightarrow> error + (Mat \<times> 'p heap)" where
  "cropHorizontallyWrapped h img leftCol rightCol =
    REQUIRES (0 \<le> leftCol \<and> leftCol < cols img) (
    REQUIRES (0 \<le> rightCol \<and> rightCol < cols img) (
    if leftCol < rightCol
    then bindE (subMat img Range_all (Range leftCol rightCol)) (\<lambda>cropped. Inr (cropped, h))
    else ASSERT (leftCol > rightCol) (
      bindE (subMat img Range_all (Range leftCol (cols img))) (\<lambda>leftMat.
      bindE (subMat img Range_all (Range 0 rightCol)) (\<lambda>rightMat.
      hconcat2 h leftMat rightMat)))))"

text \<open>
  The focus height of \<^verbatim>\<open>optimizeImage\<close> for an img of \<open>height\<close> rows:
  \<^verbatim>\<open>int focusHeight = V_FOCUS_ANGLE * angleToHeight\<close> with
  \<^verbatim>\<open>angleToHeight = height / 180.0\<close>.
\<close>

definition focusHeightOf :: "int \<Rightarrow> error + int" where
  "focusHeightOf height = d2i (fl (i2d V_FOCUS_ANGLE * fl (i2d height / 180)))"

definition optimizeImage ::
  "'p cvlib \<Rightarrow> 'p heap \<Rightarrow> Mat \<Rightarrow> int \<Rightarrow> int \<Rightarrow> error + (OptimizedImage \<times> 'p heap)" where
  "optimizeImage lib h img angle0 vAngle =
    bindE (constrainAngle angle0) (\<lambda>angle.
    REQUIRES (H_FOCUS_ANGLE < CROP_ANGLE) (
    let width = cols img;
        height = rows img;
        angleToWidth = fl (i2d width / 360);
        angleToHeight = fl (i2d height / 180)
    in
    bindE (constrainAngle (angle - tdiv CROP_ANGLE 2)) (\<lambda>leftAngle.
    bindE (constrainAngle (angle + tdiv CROP_ANGLE 2)) (\<lambda>rightAngle.
    bindE (d2i (fl (i2d leftAngle * angleToWidth))) (\<lambda>leftCol.
    bindE (d2i (fl (i2d rightAngle * angleToWidth))) (\<lambda>rightCol.
    ASSERT (0 \<le> leftCol) (
    ASSERT (leftCol < width) (
    ASSERT (0 \<le> rightCol) (
    ASSERT (rightCol < width) (
    bindE (cropHorizontallyWrapped h img leftCol rightCol) (\<lambda>(cropped, h1).
    bindE (d2i (fl (i2d H_FOCUS_ANGLE * angleToWidth))) (\<lambda>focusWidth.
    let focusLeftCol = tdiv (cols cropped) 2 - tdiv focusWidth 2;
        focusRightCol = tdiv (cols cropped) 2 + tdiv focusWidth 2
    in
    ASSERT (0 \<le> focusLeftCol) (
    ASSERT (focusLeftCol \<le> focusRightCol) (
    ASSERT (focusRightCol < cols cropped) (
    bindE (subMat cropped Range_all (Range focusLeftCol focusRightCol)) (\<lambda>middle.
    bindE (focusHeightOf height) (\<lambda>focusHeight.
    bindE (d2i (fl (i2d vAngle * angleToHeight))) (\<lambda>vRow.
    let focusMiddleRow = clamp vRow (tdiv focusHeight 2) (rows img - tdiv focusHeight 2);
        focusTopRow = focusMiddleRow - tdiv focusHeight 2;
        focusBottomRow = focusMiddleRow + tdiv focusHeight 2
    in
    bindE (subMat middle (Range focusTopRow focusBottomRow) Range_all) (\<lambda>focused.
    let smallSize = (tdiv (cols cropped) BLUR_FACTOR, tdiv (rows cropped) BLUR_FACTOR);
        origSize = (cols cropped, rows cropped)
    in
    bindE (resize lib h1 cropped smallSize) (\<lambda>(small, h2).
    bindE (resize lib h2 small origSize) (\<lambda>(blurred, h3).
    Inr (newOptimizedImage focused blurred focusTopRow focusLeftCol (Mat_size img) leftCol,
         h3))))))))))))))))))))))"

definition uncropWrapped ::
  "'p::zero cvlib \<Rightarrow> 'p heap \<Rightarrow> Mat \<Rightarrow> int \<Rightarrow> int \<Rightarrow> error + (Mat \<times> 'p heap)" where
  "uncropWrapped lib h croppedImage fullWidth lBuffer =
    (let numRows = snd (Mat_size croppedImage) in
     if fst (Mat_size croppedImage) + lBuffer \<ge> fullWidth
     then
       (let rightEndExclusive = fullWidth - lBuffer in
        ASSERT (0 \<le> rightEndExclusive \<and> rightEndExclusive \<le> cols croppedImage) (
        bindE (subMat croppedImage Range_all (Range 0 rightEndExclusive)) (\<lambda>fullRight.
        bindE (subMat croppedImage Range_all (Range rightEndExclusive (cols croppedImage)))
          (\<lambda>fullLeft.
        let centerCols = fullWidth - fst (Mat_size fullRight) - fst (Mat_size fullLeft) in
        ASSERT (centerCols \<ge> 0) (
        bindE (newMat lib h numRows centerCols) (\<lambda>(fullCenter, h1).
        let h2 = setTo h1 fullCenter 0 in
        hconcat3 h2 fullLeft fullCenter fullRight))))))
     else
       bindE (newMat lib h numRows lBuffer) (\<lambda>(fullLeft, h1).
       let fullCenter = croppedImage;
           rightBufferCols = fullWidth - lBuffer - fst (Mat_size croppedImage)
       in
       ASSERT (rightBufferCols \<ge> 0) (
       bindE (newMat lib h1 numRows rightBufferCols) (\<lambda>(fullRight, h2).
       let h3 = setTo h2 fullLeft 0;
           h4 = setTo h3 fullRight 0
       in hconcat3 h4 fullLeft fullCenter fullRight))))"

definition extractImage ::
  "'p::zero cvlib \<Rightarrow> 'p heap \<Rightarrow> OptimizedImage \<Rightarrow> error + (Mat \<times> 'p heap)" where
  "extractImage lib h optImage =
    (let croppedImage = blurred optImage in
     bindE (subMat croppedImage
              (Range (focusRow optImage) (focusRow optImage + rows (focused optImage)))
              (Range (focusCol optImage) (focusCol optImage + cols (focused optImage))))
       (\<lambda>tmp.
     let h1 = copyTo h (focused optImage) tmp in
     bindE (uncropWrapped lib h1 croppedImage (fst (fullSize optImage)) (leftBuffer optImage))
       (\<lambda>(fullImage, h2).
     ENSURES (Mat_size fullImage = fullSize optImage) (Inr (fullImage, h2)))))"

definition processImage ::
  "'p::zero cvlib \<Rightarrow> 'p heap \<Rightarrow> Mat \<Rightarrow> int \<Rightarrow> int \<Rightarrow> error + (Mat \<times> 'p heap)" where
  "processImage lib h input angle vAngle =
    bindE (optimizeImage lib h input angle vAngle) (\<lambda>(opt, h1). extractImage lib h1 opt)"

subsection \<open>Test fixtures\<close>

text \<open>
  A three-channel pixel, and the panorama of the spec's scenarios: 360 by 180, pixel
  \<open>(r, c)\<close> is \<open>(c, r, 0)\<close>. The panorama is the only allocation of \<open>testHeap\<close>.
  \<open>halfPanorama\<close> views its upper left 180 by 90 pixels. \<open>testLib\<close> resizes by
  taking the nearest source pixel. \<open>pastedImage\<close> is a two by two surround with a one
  by one focus tile of another colour, in \<open>pastedHeap\<close>.
\<close>

datatype Vec3 = Vec3 int int int

instantiation Vec3 :: zero
begin
definition zero_Vec3 :: Vec3 where "zero_Vec3 = Vec3 0 0 0"
instance ..
end

definition testPanorama :: Mat where
  "testPanorama = \<lparr> buf = 0, row0 = 0, col0 = 0, rows = 180, cols = 360 \<rparr>"

definition testHeap :: "Vec3 heap" where
  "testHeap = [\<lambda>r c. Vec3 c r 0]"

definition testLib :: "Vec3 cvlib" where
  "testLib = \<lparr> fresh = (\<lambda>r c. Vec3 255 255 255),
               interpolate = (\<lambda>src ssize dsize r c.
                  src (r * snd ssize div snd dsize) (c * fst ssize div fst dsize)) \<rparr>"

definition halfPanorama :: Mat where
  "halfPanorama = \<lparr> buf = 0, row0 = 0, col0 = 0, rows = 90, cols = 180 \<rparr>"

definition pastedImage :: OptimizedImage where
  "pastedImage = \<lparr> focused = \<lparr> buf = 1, row0 = 0, col0 = 0, rows = 1, cols = 1 \<rparr>,
                   blurred = \<lparr> buf = 0, row0 = 0, col0 = 0, rows = 2, cols = 2 \<rparr>,
                   focusRow = 0, focusCol = 0, fullSize = (4, 2), leftBuffer = 0 \<rparr>"

definition pastedHeap :: "Vec3 heap" where
  "pastedHeap = [\<lambda>r c. Vec3 1 1 1, \<lambda>r c. Vec3 9 9 9]"


section \<open>Properties\<close>

subsection \<open>Rounding is exact on small dyadic numbers\<close>

lemma pow2_powi: "pow2 k = 2 powi k"
  by (simp add: pow2_def power_int_def field_simps)

lemma pow2_pos: "0 < pow2 k"
  by (simp add: pow2_powi)

lemma pow2_add: "pow2 (a + b) = pow2 a * pow2 b"
  by (simp add: pow2_powi power_int_add)

lemma pow2_nat: "0 \<le> k \<Longrightarrow> pow2 k = of_int (2 ^ nat k)"
  by (simp add: pow2_def)

lemma pow2_less_iff: "pow2 a < pow2 b \<longleftrightarrow> a < b"
proof
  assume "pow2 a < pow2 b"
  show "a < b"
  proof (rule ccontr)
    assume "\<not> a < b"
    then have "b \<le> a" by simp
    then have "pow2 b \<le> pow2 a"
      unfolding pow2_powi by (intro power_int_increasing) auto
    with \<open>pow2 a < pow2 b\<close> show False by simp
  qed
next
  assume "a < b"
  then show "pow2 a < pow2 b"
    unfolding pow2_powi by (intro power_int_strict_increasing) auto
qed

lemma expo_bounds:
  assumes "0 < x"
  shows "pow2 (expo x) \<le> x \<and> x < pow2 (expo x + 1)"
proof (cases "1 \<le> x")
  case True
  define n where "n = \<lfloor>x\<rfloor>"
  have n1: "1 \<le> n" using True by (simp add: n_def)
  then have b: "2 ^ nat (bitlen n - 1) \<le> n \<and> n < 2 ^ nat (bitlen n)"
    using bitlen_bounds [of n] by simp
  have bl: "1 \<le> bitlen n"
    using n1 bitlen_eq_zero_iff [of n] bitlen_nonneg [of n] by linarith
  have e: "expo x = bitlen n - 1" using True by (simp add: expo_def n_def)
  have "of_int (2 ^ nat (bitlen n - 1)) \<le> (of_int n :: rat)"
    using b by (subst of_int_le_iff) simp
  also have "\<dots> \<le> x" by (simp add: n_def)
  finally have lo: "pow2 (expo x) \<le> x"
    using bl by (simp add: e pow2_nat)
  have "x < of_int (n + 1)" unfolding n_def by linarith
  also have "(of_int (n + 1) :: rat) \<le> of_int (2 ^ nat (bitlen n))"
    using b by (subst of_int_le_iff) simp
  finally have hi: "x < pow2 (expo x + 1)"
    using bl by (simp add: e pow2_nat)
  from lo hi show ?thesis ..
next
  case False
  define y where "y = 1 / x"
  have y1: "1 < y" using False assms by (simp add: y_def)
  define m where "m = \<lceil>y\<rceil> - 1"
  have m1: "1 \<le> m" using y1 unfolding m_def by linarith
  then have b: "2 ^ nat (bitlen m - 1) \<le> m \<and> m < 2 ^ nat (bitlen m)"
    using bitlen_bounds [of m] by simp
  have bl: "1 \<le> bitlen m"
    using m1 bitlen_eq_zero_iff [of m] bitlen_nonneg [of m] by linarith
  have e: "expo x = - bitlen m" using False by (simp add: expo_def m_def y_def)
  have "y \<le> of_int (m + 1)" using ceiling_correct [of y] by (simp add: m_def)
  also have "(of_int (m + 1) :: rat) \<le> of_int (2 ^ nat (bitlen m))"
    using b by (subst of_int_le_iff) simp
  finally have "y \<le> pow2 (bitlen m)" using bl by (simp add: pow2_nat)
  then have "1 / pow2 (bitlen m) \<le> 1 / y"
    using y1 by (intro divide_left_mono) (auto simp: pow2_pos intro!: mult_pos_pos)
  then have lo: "pow2 (expo x) \<le> x"
    using assms by (simp add: e y_def pow2_powi power_int_minus_divide)
  have "of_int (2 ^ nat (bitlen m - 1)) \<le> (of_int m :: rat)"
    using b by (subst of_int_le_iff) simp
  also have "(of_int m :: rat) < y" using ceiling_correct [of y] by (simp add: m_def)
  finally have "pow2 (bitlen m - 1) < y" using bl by (simp add: pow2_nat)
  then have "1 / y < 1 / pow2 (bitlen m - 1)"
    using y1 by (intro divide_strict_left_mono) (auto simp: pow2_pos intro!: mult_pos_pos)
  moreover have "1 / pow2 (bitlen m - 1) = pow2 (- bitlen m + 1)"
    using power_int_minus_divide [of "2::rat" "bitlen m - 1"] by (simp add: pow2_powi)
  ultimately have hi: "x < pow2 (expo x + 1)"
    using assms by (simp add: e y_def)
  from lo hi show ?thesis ..
qed

lemma round_even_of_int: "round_even (of_int z) = z"
  by (simp add: round_even_def)

lemma fl_exact_pos:
  assumes "0 < m" "m < 2 ^ 53"
  shows "fl (of_int m * pow2 k) = of_int m * pow2 k"
proof -
  define x where "x = (of_int m :: rat) * pow2 k"
  have xpos: "0 < x" using assms by (simp add: x_def pow2_pos)
  define e where "e = expo x"
  have eb: "pow2 e \<le> x" "x < pow2 (e + 1)"
    using expo_bounds [OF xpos] by (simp_all add: e_def)
  have "(of_int m :: rat) < of_int (2 ^ 53)" using assms by (subst of_int_less_iff) simp
  then have "(of_int m :: rat) < pow2 53" by (simp add: pow2_def)
  then have "x < pow2 53 * pow2 k"
    unfolding x_def using pow2_pos [of k] by (intro mult_strict_right_mono) auto
  with eb(1) have "pow2 e < pow2 (53 + k)" by (simp add: pow2_add)
  then have ek: "e < 53 + k" by (simp add: pow2_less_iff)
  define j where "j = 52 - e + k"
  have j0: "0 \<le> j" using ek by (simp add: j_def)
  have "x * pow2 (52 - e) = of_int m * pow2 j"
    by (simp add: x_def j_def pow2_add)
  also have "\<dots> = of_int (m * 2 ^ nat j)" using j0 by (simp add: pow2_nat)
  finally have "x * pow2 (52 - e) = of_int (m * 2 ^ nat j)" .
  then have r: "round_even (x * pow2 (52 - e)) = m * 2 ^ nat j"
    by (simp only: round_even_of_int)
  have "fl x = of_int (m * 2 ^ nat j) * pow2 (- (52 - e))"
    using xpos r by (simp add: fl_def e_def Let_def)
  also have "\<dots> = of_int m * (pow2 j * pow2 (e - 52))" using j0 by (simp add: pow2_nat)
  also have "pow2 j * pow2 (e - 52) = pow2 k"
    unfolding pow2_add [symmetric] by (simp add: j_def)
  finally show ?thesis by (simp add: x_def)
qed

lemma fl_exact:
  assumes "\<bar>m\<bar> < 2 ^ 53"
  shows "fl (of_int m * pow2 k) = of_int m * pow2 k"
proof -
  consider "m = 0" | "0 < m" | "m < 0" by linarith
  then show ?thesis
  proof cases
    case 1
    then show ?thesis by (simp add: fl_def)
  next
    case 2
    then show ?thesis using assms by (intro fl_exact_pos) auto
  next
    case 3
    have neg: "fl (- y) = - fl y" for y
      by (simp add: fl_def Let_def)
    have "fl (of_int (- m) * pow2 k) = of_int (- m) * pow2 k"
      using 3 assms by (intro fl_exact_pos) auto
    then show ?thesis using neg [of "of_int m * pow2 k"] by simp
  qed
qed

lemma fl_of_int: "\<bar>n\<bar> < 2 ^ 53 \<Longrightarrow> fl (of_int n) = of_int n"
  using fl_exact [of n 0] by (simp add: pow2_def)

lemma i2d_exact: "\<bar>n\<bar> < 2 ^ 53 \<Longrightarrow> i2d n = of_int n"
  by (simp add: i2d_def fl_of_int)

lemma fl_half: "\<bar>n\<bar> < 2 ^ 53 \<Longrightarrow> fl (of_int n / 2) = of_int n / 2"
  using fl_exact [of n "- 1"] by (simp add: pow2_def)

subsection \<open>Angle normalisation\<close>

lemma constrainAngle_mod: "constrainAngle x = Inr (x mod 360)"
proof (cases "0 \<le> x")
  case True
  have "\<not> x mod 360 < 0" using pos_mod_sign [of 360 x] by linarith
  with True show ?thesis
    by (simp add: constrainAngle_def tmod_def ENSURES_def Let_def sgn_if)
next
  case False
  then have neg: "x < 0" by simp
  have m: "(- x) mod 360 = (if x mod 360 = 0 then 0 else 360 - x mod 360)"
    by (simp add: zmod_zminus1_eq_if)
  have b: "0 \<le> x mod 360" "x mod 360 < 360" by simp_all
  show ?thesis
    using neg b unfolding constrainAngle_def tmod_def ENSURES_def Let_def
    by (simp add: sgn_if m)
qed

lemma constrainAngle_range: "\<exists>y. constrainAngle x = Inr y \<and> 0 \<le> y \<and> y < 360"
  by (simp add: constrainAngle_mod)

lemma constrainAngle_periodic: "constrainAngle (x + 360 * k) = constrainAngle x"
  by (simp add: constrainAngle_mod)

lemma constrainAngle_idem: "bindE (constrainAngle x) constrainAngle = constrainAngle x"
  by (simp add: constrainAngle_mod bindE_def)

text \<open>
  C8 (angle normalisation, both overloads): the result lies in \<open>[0, 360)\<close>. The three
  lemmas above give the claim for \<^verbatim>\<open>constrainAngle(int)\<close>. The overload for
  \<^verbatim>\<open>double\<close> breaks it: for the tiny negative input \<open>- 1 / 2 ^ 60\<close>, a binary64 number,
  \<^verbatim>\<open>fmod\<close> returns the input, the sum with 360 rounds to 360.0, and the function's own
  \<^verbatim>\<open>ENSURES(0 <= x && x < 360)\<close> fails.
\<close>

theorem constrainAngle_double_reaches_360:
  "fl (- (1 / 2 ^ 60)) = - (1 / 2 ^ 60)
   \<and> fl (fmod (- (1 / 2 ^ 60)) 360 + 360) = 360
   \<and> constrainAngle_d (- (1 / 2 ^ 60)) = Inl ContractViolation"
  by code_simp

subsection \<open>The frame-rate profiler\<close>

lemma d2i_half: "d2i (1 / 2) = Inr 0"
  by code_simp

lemma profileFrame_half:
  assumes "ticklist p = replicate 100 0" "0 \<le> tickindex p" "tickindex p < 100"
    and "ticksum p = of_int a / 2" "0 \<le> a" "a < 2 ^ 52"
  shows "profileFrame p (1 / 2) =
     Inr (p\<lparr> ticksum := of_int (a + 1) / 2,
             tickindex := (tickindex p + 1) mod 100,
             samplesCollected := (if samplesCollected p < 100 then samplesCollected p + 1
                                  else samplesCollected p) \<rparr>)"
proof -
  have z: "ticklist p ! nat (tickindex p) = 0"
    using assms by simp
  have i0: "i2d 0 = 0" by (simp add: i2d_def fl_def)
  have s1: "fl (ticksum p - i2d 0) = of_int a / 2"
    unfolding i0 assms(4) using fl_half [of a] assms(5,6) by simp
  have "fl (of_int a / 2 + 1 / 2) = fl (of_int (a + 1) / 2)"
    by (simp add: add_divide_distrib)
  also have "\<dots> = of_int (a + 1) / 2"
    using assms by (intro fl_half) simp
  finally have s2: "fl (of_int a / 2 + 1 / 2) = of_int (a + 1) / 2" .
  have l: "(ticklist p)[nat (tickindex p) := 0] = ticklist p"
    using z list_update_id [of "ticklist p" "nat (tickindex p)"] by simp
  have t: "tmod (tickindex p + 1) 100 = (tickindex p + 1) mod 100"
    using assms by (simp add: tmod_def sgn_if)
  show ?thesis
    unfolding profileFrame_def Let_def z s1 s2 d2i_half bindE_def MAX_SAMPLES_def
    by (simp add: l t)
qed

lemma fl_one_half: "fl (1 / 2) = 1 / 2"
  using fl_half [of 1] by simp

lemma runFrames_half:
  assumes "\<forall>f\<in>set fs. snd f - fst f = 1 / 2"
    and "ticklist p = replicate 100 0" "0 \<le> tickindex p" "tickindex p < 100"
    and "ticksum p = of_int a / 2" "0 \<le> a" "a + int (length fs) < 2 ^ 52"
    and "0 \<le> samplesCollected p" "samplesCollected p \<le> 100"
  shows "\<exists>p'. runFrames p fs = Inr p' \<and> ticksum p' = of_int (a + int (length fs)) / 2
     \<and> samplesCollected p' = min 100 (samplesCollected p + int (length fs))"
  using assms
proof (induction fs arbitrary: p a)
  case Nil
  then show ?case by simp
next
  case (Cons f fs)
  obtain t0 t1 where f: "f = (t0, t1)" by (cases f)
  have d: "t1 - t0 = 1 / 2" using Cons.prems(1) f by simp
  define q where "q = startFrame p t0"
  have q: "ticklist q = replicate 100 0" "0 \<le> tickindex q" "tickindex q < 100"
    "ticksum q = of_int a / 2" "frameStart q = t0" "samplesCollected q = samplesCollected p"
    using Cons.prems by (simp_all add: q_def startFrame_def)
  define p1 where "p1 = q\<lparr> ticksum := of_int (a + 1) / 2,
             tickindex := (tickindex q + 1) mod 100,
             samplesCollected := (if samplesCollected q < 100 then samplesCollected q + 1
                                  else samplesCollected q) \<rparr>"
  have fin: "finishFrame q t1 = Inr p1"
    unfolding finishFrame_def q(5) d fl_one_half p1_def
    using q(1-4) Cons.prems(6,7) by (intro profileFrame_half) simp_all
  have "\<exists>p'. runFrames p1 fs = Inr p' \<and> ticksum p' = of_int ((a + 1) + int (length fs)) / 2
     \<and> samplesCollected p' = min 100 (samplesCollected p1 + int (length fs))"
    using Cons.prems q by (intro Cons.IH) (simp_all add: p1_def)
  then obtain p' where p': "runFrames p1 fs = Inr p'"
    "ticksum p' = of_int ((a + 1) + int (length fs)) / 2"
    "samplesCollected p' = min 100 (samplesCollected p1 + int (length fs))" by blast
  have "runFrames p (f # fs) = Inr p'"
    using fin p'(1) by (simp add: f bindE_def q_def)
  moreover have "ticksum p' = of_int (a + int (length (f # fs))) / 2"
    using p'(2) by (simp add: add.commute add.left_commute)
  moreover have "samplesCollected p' = min 100 (samplesCollected p + int (length (f # fs)))"
    using p'(3) q(6) Cons.prems(8,9) by (simp add: p1_def min_def)
  ultimately show ?case by blast
qed

lemma frame_half: "(of_nat k + 1) / 2 - of_nat k / 2 = (1 / 2 :: rat)"
  by (simp add: field_simps)

lemma halfSecondFrames_times:
  "map (\<lambda>(t0, t1). fl (t1 - t0)) (halfSecondFrames n) = replicate n (1 / 2)"
proof -
  have "(\<lambda>(t0, t1). fl (t1 - t0)) \<circ> (\<lambda>k. (of_nat k / 2, (of_nat k + 1) / 2)) = (\<lambda>k::nat. 1 / 2)"
    by (simp add: fun_eq_iff frame_half fl_one_half)
  then show ?thesis
    by (simp add: halfSecondFrames_def map_replicate_const)
qed

lemma spec_101: "spec_framerate (map (\<lambda>(t0, t1). fl (t1 - t0)) (halfSecondFrames 101)) = 2"
  by (simp add: halfSecondFrames_times spec_framerate_def Let_def sum_list_replicate)

lemma getFramerate_new: "getFramerate newProfiler = 0"
  by (simp add: getFramerate_def newProfiler_def)

text \<open>
  C4 (rolling frame-rate average): \<^verbatim>\<open>getFramerate\<close> is the number of samples in the
  window over the exact sum of the frame times in the window. The code departs from it
  once the window is full: the stored samples are truncated to \<^verbatim>\<open>int\<close>, so what is
  subtracted for a frame that leaves the window is not its frame time. After 101
  frames of half a second the sum is 50.5 where the window holds 50 seconds, and the
  rate is \<open>100 / 50.5\<close>, not 2.
\<close>

theorem framerate_window_drift:
  "\<exists>p. runFrames newProfiler (halfSecondFrames 101) = Inr p
     \<and> samplesCollected p = 100 \<and> ticksum p = 101 / 2
     \<and> getFramerate p = 1114752383012499 / 562949953421312
     \<and> spec_framerate (map (\<lambda>(t0, t1). fl (t1 - t0)) (halfSecondFrames 101)) = 2"
proof -
  have "\<exists>p'. runFrames newProfiler (halfSecondFrames 101) = Inr p'
     \<and> ticksum p' = of_int (0 + int (length (halfSecondFrames 101))) / 2
     \<and> samplesCollected p' = min 100 (samplesCollected newProfiler + int (length (halfSecondFrames 101)))"
  proof (rule runFrames_half)
    show "\<forall>f\<in>set (halfSecondFrames 101). snd f - fst f = 1 / 2"
      by (auto simp: halfSecondFrames_def add_divide_distrib)
  qed (simp_all add: halfSecondFrames_def newProfiler_def MAX_SAMPLES_def)
  then obtain p where p: "runFrames newProfiler (halfSecondFrames 101) = Inr p"
    "ticksum p = 101 / 2" "samplesCollected p = 100"
    by (auto simp: halfSecondFrames_def newProfiler_def)
  have v: "fl (100 / (101 / 2)) = 1114752383012499 / 562949953421312" by code_simp
  have "getFramerate p = 1114752383012499 / 562949953421312"
    using v by (simp add: getFramerate_def p i2d_exact)
  with p spec_101 show ?thesis by blast
qed

subsection \<open>Results and views\<close>

lemma bindE_Inr_iff: "bindE m f = Inr y \<longleftrightarrow> (\<exists>x. m = Inr x \<and> f x = Inr y)"
  by (cases m) (simp_all add: bindE_def)

lemma bindE_Inr [simp]: "bindE (Inr x) f = f x"
  by (simp add: bindE_def)

lemma bindE_Inl [simp]: "bindE (Inl e) f = Inl e"
  by (simp add: bindE_def)

lemma REQUIRES_Inr_iff: "REQUIRES c k = Inr y \<longleftrightarrow> c \<and> k = Inr y"
  by (simp add: REQUIRES_def)

lemma ASSERT_Inr_iff: "ASSERT c k = Inr y \<longleftrightarrow> c \<and> k = Inr y"
  by (simp add: ASSERT_def)

lemma ENSURES_Inr_iff: "ENSURES c k = Inr y \<longleftrightarrow> c \<and> k = Inr y"
  by (simp add: ENSURES_def)

lemmas Inr_iffs = bindE_Inr_iff REQUIRES_Inr_iff ASSERT_Inr_iff ENSURES_Inr_iff

lemma subMat_cols:
  "subMat m Range_all (Range s e) = Inr m' \<longleftrightarrow>
     0 \<le> s \<and> s \<le> e \<and> e \<le> cols m \<and> m' = m\<lparr> col0 := col0 m + s, cols := e - s \<rparr>"
  by (auto simp: subMat_def)

lemma subMat_rows:
  "subMat m (Range s e) Range_all = Inr m' \<longleftrightarrow>
     0 \<le> s \<and> s \<le> e \<and> e \<le> rows m \<and> m' = m\<lparr> row0 := row0 m + s, rows := e - s \<rparr>"
  by (auto simp: subMat_def)

lemma subMat_both:
  "subMat m (Range s e) (Range s' e') = Inr m' \<longleftrightarrow>
     0 \<le> s \<and> s \<le> e \<and> e \<le> rows m \<and> 0 \<le> s' \<and> s' \<le> e' \<and> e' \<le> cols m \<and>
     m' = m\<lparr> row0 := row0 m + s, rows := e - s, col0 := col0 m + s', cols := e' - s' \<rparr>"
  by (auto simp: subMat_def)

lemma pixel_append: "buf m < length h \<Longrightarrow> pixel (h @ g) m r c = pixel h m r c"
  by (simp add: pixel_def nth_append)

lemma pixel_new: "buf m = length h \<Longrightarrow> pixel (h @ [f]) m r c = f (row0 m + r) (col0 m + c)"
  by (simp add: pixel_def)

subsection \<open>Evaluating the arithmetic\<close>

lemma d2i_of_int: "- (2 ^ 31) \<le> n \<Longrightarrow> n < 2 ^ 31 \<Longrightarrow> d2i (of_int n) = Inr n"
  by (simp add: d2i_def trunc_def)

lemma unit_scale: "n \<noteq> 0 \<Longrightarrow> \<bar>n\<bar> < 2 ^ 53 \<Longrightarrow> fl (i2d n / of_int n) = 1"
  using fl_of_int [of 1] by (simp add: i2d_exact)

lemma d2i_i2d:
  assumes "- (2 ^ 31) \<le> n" "n < 2 ^ 31"
  shows "d2i (fl (i2d n)) = Inr n"
proof -
  have "\<bar>n\<bar> < 2 ^ 53" using assms by simp
  then show ?thesis using assms by (simp add: i2d_exact fl_of_int d2i_of_int)
qed

lemma tdiv_nonneg: "0 \<le> a \<Longrightarrow> 0 < b \<Longrightarrow> tdiv a b = a div b"
  by (simp add: tdiv_def sgn_if)

lemma fl_numeral: "(numeral n :: int) < 2 ^ 53 \<Longrightarrow> fl (numeral n) = numeral n"
  using fl_of_int [of "numeral n"] by simp

lemma i2d_numeral: "(numeral n :: int) < 2 ^ 53 \<Longrightarrow> i2d (numeral n) = numeral n"
  using i2d_exact [of "numeral n"] by simp

lemma d2i_numeral: "(numeral n :: int) < 2 ^ 31 \<Longrightarrow> d2i (numeral n) = Inr (numeral n)"
  using d2i_of_int [of "numeral n"] by simp

lemma fl_one: "fl 1 = 1"
  using fl_of_int [of 1] by simp

lemma fl_zero: "fl 0 = 0" by (simp add: fl_def)

lemma i2d_zero: "i2d 0 = 0" by (simp add: i2d_def fl_def)

lemma d2i_zero: "d2i 0 = Inr 0" by (simp add: d2i_def trunc_def)

lemmas eval_simps = fl_one fl_numeral i2d_numeral d2i_numeral fl_zero i2d_zero d2i_zero fl_one_half
  tdiv_nonneg constrainAngle_mod

lemma focusHeightOf_180: "focusHeightOf 180 = Inr 30"
  by (simp add: focusHeightOf_def eval_simps V_FOCUS_ANGLE_def)

lemma focusHeightOf_738: "focusHeightOf 738 = Inr 122 \<and> (V_FOCUS_ANGLE * 738) div 180 = 123"
  by code_simp

lemma focusHeightOf_90: "focusHeightOf 90 = Inr 15"
  by (simp add: focusHeightOf_def eval_simps V_FOCUS_ANGLE_def)

subsection \<open>What a successful encoding has computed\<close>

lemma optimizeImage_InrE:
  assumes "optimizeImage lib h img angle0 vAngle = Inr (opt, h')"
  obtains leftCol rightCol cropped h1 focusWidth focusHeight vRow top small h2 blur where
    "0 \<le> leftCol" "leftCol < cols img" "0 \<le> rightCol" "rightCol < cols img"
    "cropHorizontallyWrapped h img leftCol rightCol = Inr (cropped, h1)"
    "0 \<le> tdiv (cols cropped) 2 - tdiv focusWidth 2"
    "tdiv (cols cropped) 2 - tdiv focusWidth 2 \<le> tdiv (cols cropped) 2 + tdiv focusWidth 2"
    "tdiv (cols cropped) 2 + tdiv focusWidth 2 < cols cropped"
    "focusHeightOf (rows img) = Inr focusHeight"
    "d2i (fl (i2d vAngle * fl (i2d (rows img) / 180))) = Inr vRow"
    "top = clamp vRow (tdiv focusHeight 2) (rows img - tdiv focusHeight 2) - tdiv focusHeight 2"
    "0 \<le> top" "top + 2 * tdiv focusHeight 2 \<le> rows cropped" "0 \<le> tdiv focusHeight 2"
    "resize lib h1 cropped (tdiv (cols cropped) BLUR_FACTOR, tdiv (rows cropped) BLUR_FACTOR) = Inr (small, h2)"
    "resize lib h2 small (cols cropped, rows cropped) = Inr (blur, h')"
    "opt = \<lparr> focused = cropped\<lparr> col0 := col0 cropped + (tdiv (cols cropped) 2 - tdiv focusWidth 2),
                                   cols := 2 * tdiv focusWidth 2,
                                   row0 := row0 cropped + top,
                                   rows := 2 * tdiv focusHeight 2 \<rparr>,
             blurred = blur, focusRow = top,
             focusCol = tdiv (cols cropped) 2 - tdiv focusWidth 2,
             fullSize = (cols img, rows img), leftBuffer = leftCol \<rparr>"
  using assms unfolding optimizeImage_def Let_def
  apply (simp add: constrainAngle_mod Inr_iffs subMat_cols subMat_rows split_paired_all
      newOptimizedImage_def Mat_size_def cong: conj_cong)
  apply (elim exE conjE)
  subgoal premises prems for lc rc cr h1 fw fh vr sm h2 bl
    by (rule prems(1) [of lc rc cr h1 fw fh vr _ sm h2 bl]) (use prems(2-) in simp_all)
  done

lemma resize_Inr_iff:
  "resize lib h src d = Inr (m, h') \<longleftrightarrow>
     \<not> Mat_empty src \<and> 0 < fst d \<and> 0 < snd d \<and>
     m = \<lparr> buf = length h, row0 = 0, col0 = 0, rows = snd d, cols = fst d \<rparr> \<and>
     h' = h @ [interpolate lib (pixel h src) (Mat_size src) d]"
  by (auto simp: resize_def)

lemma cropHorizontallyWrapped_Inr:
  assumes "cropHorizontallyWrapped h img L R = Inr (m, h1)"
  shows "0 \<le> L \<and> L < cols img \<and> 0 \<le> R \<and> R < cols img \<and>
    ((L < R \<and> h1 = h \<and> m = img\<lparr> col0 := col0 img + L, cols := R - L \<rparr>) \<or>
     (R < L \<and> m = \<lparr> buf = length h, row0 = 0, col0 = 0, rows = rows img, cols = cols img - L + R \<rparr> \<and>
      h1 = h @ [\<lambda>r c. if c < cols img - L then pixel h img r (L + c)
                         else pixel h img r (c - (cols img - L))]))"
  using assms
  by (auto simp: cropHorizontallyWrapped_def Inr_iffs subMat_cols hconcat2_def pixel_def
      fun_eq_iff add.assoc split: if_splits)

lemma optimizeImage_inv:
  assumes "optimizeImage lib h img angle vAngle = Inr (opt, h')"
  shows "0 \<le> focusCol opt \<and> focusCol opt + cols (focused opt) \<le> cols (blurred opt)
     \<and> 0 \<le> focusRow opt \<and> focusRow opt + rows (focused opt) \<le> rows (blurred opt)
     \<and> cols (blurred opt) \<le> cols img \<and> rows (blurred opt) \<le> rows img
     \<and> 0 \<le> leftBuffer opt \<and> leftBuffer opt < cols img
     \<and> fullSize opt = (cols img, rows img)"
  using assms
proof (rule optimizeImage_InrE)
  fix leftCol rightCol cropped h1 focusWidth focusHeight vRow top small h2 blur
  assume a: "0 \<le> leftCol" "leftCol < cols img" "0 \<le> rightCol" "rightCol < cols img"
    "cropHorizontallyWrapped h img leftCol rightCol = Inr (cropped, h1)"
    "0 \<le> tdiv (cols cropped) 2 - tdiv focusWidth 2"
    "tdiv (cols cropped) 2 - tdiv focusWidth 2 \<le> tdiv (cols cropped) 2 + tdiv focusWidth 2"
    "tdiv (cols cropped) 2 + tdiv focusWidth 2 < cols cropped"
    "0 \<le> top" "top + 2 * tdiv focusHeight 2 \<le> rows cropped" "0 \<le> tdiv focusHeight 2"
    "resize lib h2 small (cols cropped, rows cropped) = Inr (blur, h')"
    and opt: "opt = \<lparr> focused = cropped\<lparr> col0 := col0 cropped + (tdiv (cols cropped) 2 - tdiv focusWidth 2),
                                   cols := 2 * tdiv focusWidth 2,
                                   row0 := row0 cropped + top,
                                   rows := 2 * tdiv focusHeight 2 \<rparr>,
             blurred = blur, focusRow = top,
             focusCol = tdiv (cols cropped) 2 - tdiv focusWidth 2,
             fullSize = (cols img, rows img), leftBuffer = leftCol \<rparr>"
  have b: "rows blur = rows cropped" "cols blur = cols cropped"
    using a(12) by (auto simp: resize_Inr_iff)
  have c: "rows cropped = rows img" "cols cropped \<le> cols img"
    using cropHorizontallyWrapped_Inr [OF a(5)] by auto
  show ?thesis
    using a b c by (simp add: opt)
qed

lemma wrap_mod:
  assumes "0 \<le> (x::int)" "x < 2 * W" "0 < W"
  shows "x mod W = (if x < W then x else x - W)"
proof (cases "x < W")
  case True
  then show ?thesis using assms by simp
next
  case False
  have "x mod W = (x - W) mod W" by simp
  also have "\<dots> = x - W" using False assms by (intro mod_pos_pos_trivial) auto
  finally show ?thesis using False by simp
qed

lemma cropHorizontallyWrapped_pixel:
  assumes "cropHorizontallyWrapped h img L R = Inr (m, h1)" "buf img < length h"
    "0 \<le> c" "c < cols m"
  shows "pixel h1 m r c = pixel h img r ((L + c) mod cols img)" and "buf m < length h1"
proof -
  from cropHorizontallyWrapped_Inr [OF assms(1)]
  consider (contained) "0 \<le> L" "L < R" "R < cols img" "h1 = h"
      "m = img\<lparr> col0 := col0 img + L, cols := R - L \<rparr>"
    | (wrapped) "0 \<le> R" "R < L" "L < cols img"
      "m = \<lparr> buf = length h, row0 = 0, col0 = 0, rows = rows img, cols = cols img - L + R \<rparr>"
      "h1 = h @ [\<lambda>r c. if c < cols img - L then pixel h img r (L + c)
                       else pixel h img r (c - (cols img - L))]"
    by blast
  then have "pixel h1 m r c = pixel h img r ((L + c) mod cols img) \<and> buf m < length h1"
  proof cases
    case contained
    have "(L + c) mod cols img = L + c" using contained assms(3,4) by simp
    then show ?thesis using contained assms(2) by (simp add: pixel_def algebra_simps)
  next
    case wrapped
    have "0 \<le> L + c" "L + c < 2 * cols img" "0 < cols img"
      using wrapped assms(3,4) by simp_all
    then have "(L + c) mod cols img = (if L + c < cols img then L + c else L + c - cols img)"
      by (rule wrap_mod)
    then show ?thesis using wrapped by (simp add: pixel_def algebra_simps)
  qed
  then show "pixel h1 m r c = pixel h img r ((L + c) mod cols img)" and "buf m < length h1"
    by simp_all
qed

lemma optimizeImage_focused_pixels:
  assumes ok: "optimizeImage lib h img angle vAngle = Inr (opt, h')"
    and alloc: "buf img < length h"
  shows "buf (blurred opt) < length h' \<and>
    (\<forall>r c. 0 \<le> c \<and> c < cols (focused opt) \<longrightarrow>
      pixel h' (focused opt) r c =
        pixel h img (focusRow opt + r) ((leftBuffer opt + focusCol opt + c) mod cols img))"
  using ok
proof (rule optimizeImage_InrE)
  fix leftCol rightCol cropped h1 focusWidth focusHeight vRow top small h2 blur
  assume a: "0 \<le> leftCol" "leftCol < cols img" "0 \<le> rightCol" "rightCol < cols img"
    "cropHorizontallyWrapped h img leftCol rightCol = Inr (cropped, h1)"
    "0 \<le> tdiv (cols cropped) 2 - tdiv focusWidth 2"
    "tdiv (cols cropped) 2 - tdiv focusWidth 2 \<le> tdiv (cols cropped) 2 + tdiv focusWidth 2"
    "tdiv (cols cropped) 2 + tdiv focusWidth 2 < cols cropped"
    "resize lib h1 cropped (tdiv (cols cropped) BLUR_FACTOR, tdiv (rows cropped) BLUR_FACTOR) = Inr (small, h2)"
    "resize lib h2 small (cols cropped, rows cropped) = Inr (blur, h')"
    and opt: "opt = \<lparr> focused = cropped\<lparr> col0 := col0 cropped + (tdiv (cols cropped) 2 - tdiv focusWidth 2),
                                   cols := 2 * tdiv focusWidth 2,
                                   row0 := row0 cropped + top,
                                   rows := 2 * tdiv focusHeight 2 \<rparr>,
             blurred = blur, focusRow = top,
             focusCol = tdiv (cols cropped) 2 - tdiv focusWidth 2,
             fullSize = (cols img, rows img), leftBuffer = leftCol \<rparr>"
  define fL where "fL = tdiv (cols cropped) 2 - tdiv focusWidth 2"
  define fw where "fw = 2 * tdiv focusWidth 2"
  have f: "0 \<le> fL" "fL + fw < cols cropped"
    using a(6,8) by (simp_all add: fL_def fw_def)
  obtain g1 where h2: "h2 = h1 @ [g1]"
    using a(9) by (simp add: resize_Inr_iff)
  obtain g2 where h': "h' = h2 @ [g2]" and bl: "buf blur = length h2"
    using a(10) by (simp add: resize_Inr_iff)
  have 1: "buf (blurred opt) < length h'" by (simp add: opt h' bl)
  have 2: "pixel h' (focused opt) r c =
        pixel h img (focusRow opt + r) ((leftBuffer opt + focusCol opt + c) mod cols img)"
    if c: "0 \<le> c" "c < cols (focused opt)" for r c
  proof -
    have cw: "0 \<le> fL + c" "fL + c < cols cropped" using c f by (simp_all add: opt fw_def)
    have "pixel h' (focused opt) r c = pixel h' cropped (top + r) (fL + c)"
      by (simp add: opt pixel_def fL_def algebra_simps)
    also have "\<dots> = pixel h1 cropped (top + r) (fL + c)"
      using cropHorizontallyWrapped_pixel(2) [OF a(5) alloc cw]
      by (simp add: h' h2 pixel_def nth_append)
    also have "\<dots> = pixel h img (top + r) ((leftCol + (fL + c)) mod cols img)"
      by (rule cropHorizontallyWrapped_pixel(1) [OF a(5) alloc cw])
    finally show ?thesis by (simp add: opt fL_def add.assoc)
  qed
  from 1 2 show ?thesis by blast
qed

lemma optimizeImage_dims:
  assumes "optimizeImage lib h img angle vAngle = Inr (opt, h')"
  shows "rows (blurred opt) = rows img \<and> 0 \<le> rows (focused opt) \<and> 0 \<le> cols (focused opt)
     \<and> (\<exists>fh. focusHeightOf (rows img) = Inr fh \<and> rows (focused opt) = 2 * tdiv fh 2)"
  using assms
proof (rule optimizeImage_InrE)
  fix leftCol rightCol cropped h1 focusWidth focusHeight vRow top small h2 blur
  assume a: "cropHorizontallyWrapped h img leftCol rightCol = Inr (cropped, h1)"
    "tdiv (cols cropped) 2 - tdiv focusWidth 2 \<le> tdiv (cols cropped) 2 + tdiv focusWidth 2"
    "focusHeightOf (rows img) = Inr focusHeight"
    "0 \<le> tdiv focusHeight 2"
    "resize lib h2 small (cols cropped, rows cropped) = Inr (blur, h')"
    and opt: "opt = \<lparr> focused = cropped\<lparr> col0 := col0 cropped + (tdiv (cols cropped) 2 - tdiv focusWidth 2),
                                   cols := 2 * tdiv focusWidth 2,
                                   row0 := row0 cropped + top,
                                   rows := 2 * tdiv focusHeight 2 \<rparr>,
             blurred = blur, focusRow = top,
             focusCol = tdiv (cols cropped) 2 - tdiv focusWidth 2,
             fullSize = (cols img, rows img), leftBuffer = leftCol \<rparr>"
  have "rows blur = rows cropped" using a(5) by (auto simp: resize_Inr_iff)
  moreover have "rows cropped = rows img"
    using cropHorizontallyWrapped_Inr [OF a(1)] by auto
  ultimately show ?thesis
    using a(2,3,4) by (simp add: opt)
qed

lemma optimizeImage_heap:
  assumes "optimizeImage lib h img angle vAngle = Inr (opt, h')"
  shows "\<exists>g. h' = h @ g \<and> g \<noteq> [] \<and> buf (blurred opt) = length h' - 1
     \<and> (buf (focused opt) = buf img \<or> buf (focused opt) = length h)"
  using assms
proof (rule optimizeImage_InrE)
  fix leftCol rightCol cropped h1 focusWidth focusHeight vRow top small h2 blur
  assume a: "cropHorizontallyWrapped h img leftCol rightCol = Inr (cropped, h1)"
    "resize lib h1 cropped (tdiv (cols cropped) BLUR_FACTOR, tdiv (rows cropped) BLUR_FACTOR) = Inr (small, h2)"
    "resize lib h2 small (cols cropped, rows cropped) = Inr (blur, h')"
    and opt: "opt = \<lparr> focused = cropped\<lparr> col0 := col0 cropped + (tdiv (cols cropped) 2 - tdiv focusWidth 2),
                                   cols := 2 * tdiv focusWidth 2,
                                   row0 := row0 cropped + top,
                                   rows := 2 * tdiv focusHeight 2 \<rparr>,
             blurred = blur, focusRow = top,
             focusCol = tdiv (cols cropped) 2 - tdiv focusWidth 2,
             fullSize = (cols img, rows img), leftBuffer = leftCol \<rparr>"
  obtain g1 where h2: "h2 = h1 @ [g1]"
    using a(2) by (simp add: resize_Inr_iff)
  obtain g2 where h': "h' = h2 @ [g2]" and bl: "buf blur = length h2"
    using a(3) by (simp add: resize_Inr_iff)
  from cropHorizontallyWrapped_Inr [OF a(1)]
  have "(h1 = h \<and> buf cropped = buf img) \<or> (\<exists>g0. h1 = h @ [g0] \<and> buf cropped = length h)"
    by auto
  then show ?thesis
    by (auto simp: opt h' h2 bl)
qed

subsection \<open>The decoder\<close>

lemma subMat_cols_eval:
  "0 \<le> s \<Longrightarrow> s \<le> e \<Longrightarrow> e \<le> cols m \<Longrightarrow>
     subMat m Range_all (Range s e) = Inr (m\<lparr> col0 := col0 m + s, cols := e - s \<rparr>)"
  by (simp add: subMat_def)

lemma subMat_both_eval:
  "0 \<le> s \<Longrightarrow> s \<le> e \<Longrightarrow> e \<le> rows m \<Longrightarrow> 0 \<le> s' \<Longrightarrow> s' \<le> e' \<Longrightarrow> e' \<le> cols m \<Longrightarrow>
     subMat m (Range s e) (Range s' e') =
       Inr (m\<lparr> row0 := row0 m + s, rows := e - s, col0 := col0 m + s', cols := e' - s' \<rparr>)"
  by (simp add: subMat_def)

lemma uncropWrapped_total:
  assumes "0 \<le> rows m" "0 \<le> cols m" "cols m \<le> W" "0 \<le> L" "L < W"
  shows "\<exists>R h'. uncropWrapped lib h m W L = Inr (R, h') \<and> cols R = W \<and> rows R = rows m"
  using assms
  unfolding uncropWrapped_def Let_def Mat_size_def
  by (simp add: ASSERT_def subMat_cols_eval newMat_def setTo_def hconcat3_def)

lemma uncropWrapped_pixels:
  assumes "0 \<le> rows m" "0 \<le> cols m" "cols m \<le> W" "0 \<le> L" "L < W" "buf m < length h"
    and "uncropWrapped lib h m W L = Inr (R, h')" "0 \<le> c" "c < cols m"
  shows "pixel h' R r ((L + c) mod W) = pixel h m r c"
proof (cases "cols m + L \<ge> W")
  case True
  have md: "(L + c) mod W = (if c < W - L then L + c else L + c - W)"
  proof (cases "c < W - L")
    case True
    then show ?thesis using assms by simp
  next
    case False
    have "(L + c) mod W = (L + c - W) mod W" by simp
    also have "\<dots> = L + c - W" using False assms by (intro mod_pos_pos_trivial) auto
    finally show ?thesis using False by simp
  qed
  show ?thesis
    using assms True
    unfolding uncropWrapped_def Let_def Mat_size_def md
    by (auto simp: ASSERT_def subMat_cols_eval newMat_def setTo_def hconcat3_def pixel_def
        nth_append algebra_simps)
next
  case False
  have md: "(L + c) mod W = L + c" using False assms by simp
  show ?thesis
    using assms False
    unfolding uncropWrapped_def Let_def Mat_size_def md
    by (auto simp: ASSERT_def newMat_def setTo_def hconcat3_def pixel_def
        nth_append nth_list_update algebra_simps)
qed

lemma copyTo_length:
  "rows dst = rows src \<Longrightarrow> cols dst = cols src \<Longrightarrow> length (copyTo h src dst) = length h"
  by (simp add: copyTo_def)

lemma copyTo_pixel:
  assumes "rows dst = rows src" "cols dst = cols src" "buf m = buf dst" "buf dst < length h"
    "row0 dst = row0 m + fr" "col0 dst = col0 m + fc"
  shows "pixel (copyTo h src dst) m r c =
    (if fr \<le> r \<and> r < fr + rows src \<and> fc \<le> c \<and> c < fc + cols src
     then pixel h src (r - fr) (c - fc) else pixel h m r c)"
  using assms
  by (auto simp: copyTo_def pixel_def inside_def Mat_empty_def algebra_simps)

lemma extractImage_steps:
  assumes "0 \<le> focusRow opt" "focusRow opt + rows (focused opt) \<le> rows (blurred opt)"
    "0 \<le> focusCol opt" "focusCol opt + cols (focused opt) \<le> cols (blurred opt)"
    "cols (blurred opt) \<le> fst (fullSize opt)"
    "0 \<le> leftBuffer opt" "leftBuffer opt < fst (fullSize opt)"
    "0 \<le> rows (focused opt)" "0 \<le> cols (focused opt)"
  defines "tmp \<equiv> (blurred opt)\<lparr> row0 := row0 (blurred opt) + focusRow opt, rows := rows (focused opt),
                                   col0 := col0 (blurred opt) + focusCol opt, cols := cols (focused opt) \<rparr>"
  shows "\<exists>R h'.
      subMat (blurred opt)
        (Range (focusRow opt) (focusRow opt + rows (focused opt)))
        (Range (focusCol opt) (focusCol opt + cols (focused opt))) = Inr tmp
    \<and> uncropWrapped lib (copyTo h (focused opt) tmp) (blurred opt)
          (fst (fullSize opt)) (leftBuffer opt) = Inr (R, h')
    \<and> cols R = fst (fullSize opt) \<and> rows R = rows (blurred opt)
    \<and> extractImage lib h opt = ENSURES (Mat_size R = fullSize opt) (Inr (R, h'))"
proof -
  have s: "subMat (blurred opt)
        (Range (focusRow opt) (focusRow opt + rows (focused opt)))
        (Range (focusCol opt) (focusCol opt + cols (focused opt))) = Inr tmp"
    using assms(1-9) by (simp add: subMat_both_eval tmp_def)
  have "0 \<le> rows (blurred opt)" "0 \<le> cols (blurred opt)" using assms(1-9) by auto
  then obtain R h' where u: "uncropWrapped lib (copyTo h (focused opt) tmp) (blurred opt)
          (fst (fullSize opt)) (leftBuffer opt) = Inr (R, h')" "cols R = fst (fullSize opt)"
          "rows R = rows (blurred opt)"
    using uncropWrapped_total [of "blurred opt" "fst (fullSize opt)" "leftBuffer opt" lib
        "copyTo h (focused opt) tmp"] assms(5-7) by blast
  have "extractImage lib h opt = ENSURES (Mat_size R = fullSize opt) (Inr (R, h'))"
    by (simp add: extractImage_def Let_def s u(1))
  with s u show ?thesis by blast
qed

lemma uncropWrapped_heap:
  assumes "uncropWrapped lib h m W L = Inr (R, h')" "a < length h"
  shows "h' ! a = h ! a" and "length h < length h'"
proof -
  have "h' ! a = h ! a \<and> length h < length h'"
    using assms
    unfolding uncropWrapped_def Let_def Mat_size_def
    by (auto simp: Inr_iffs newMat_def setTo_def hconcat3_def nth_append nth_list_update
        split: if_splits)
  then show "h' ! a = h ! a" and "length h < length h'" by simp_all
qed

lemma extractImage_overwrites_blurred:
  assumes inv: "0 \<le> focusRow opt" "focusRow opt + rows (focused opt) \<le> rows (blurred opt)"
    "0 \<le> focusCol opt" "focusCol opt + cols (focused opt) \<le> cols (blurred opt)"
    "cols (blurred opt) \<le> fst (fullSize opt)"
    "0 \<le> leftBuffer opt" "leftBuffer opt < fst (fullSize opt)"
    "0 \<le> rows (focused opt)" "0 \<le> cols (focused opt)"
    and alloc: "buf (blurred opt) < length h"
    and ex: "extractImage lib h opt = Inr (R, h')"
  shows "pixel h' (blurred opt) r c =
    (if focusRow opt \<le> r \<and> r < focusRow opt + rows (focused opt)
        \<and> focusCol opt \<le> c \<and> c < focusCol opt + cols (focused opt)
     then pixel h (focused opt) (r - focusRow opt) (c - focusCol opt)
     else pixel h (blurred opt) r c)"
    and "\<And>a. a < length h \<Longrightarrow> a \<noteq> buf (blurred opt) \<Longrightarrow> h' ! a = h ! a"
proof -
  define tmp where "tmp = (blurred opt)\<lparr> row0 := row0 (blurred opt) + focusRow opt, rows := rows (focused opt),
                                   col0 := col0 (blurred opt) + focusCol opt, cols := cols (focused opt) \<rparr>"
  define hp where "hp = copyTo h (focused opt) tmp"
  from extractImage_steps [OF inv, of lib h]
  obtain R' h2 where u: "uncropWrapped lib hp (blurred opt) (fst (fullSize opt)) (leftBuffer opt) = Inr (R', h2)"
    and e: "extractImage lib h opt = ENSURES (Mat_size R' = fullSize opt) (Inr (R', h2))"
    unfolding tmp_def [symmetric] hp_def [symmetric] by blast
  from e ex have h2: "h2 = h'" by (simp add: ENSURES_def split: if_splits)
  have len: "length hp = length h"
    unfolding hp_def by (rule copyTo_length) (simp_all add: tmp_def)
  have "pixel h' (blurred opt) r c = pixel hp (blurred opt) r c"
    using uncropWrapped_heap(1) [OF u, of "buf (blurred opt)"] alloc
    by (simp add: pixel_def h2 len)
  also have "\<dots> = (if focusRow opt \<le> r \<and> r < focusRow opt + rows (focused opt)
        \<and> focusCol opt \<le> c \<and> c < focusCol opt + cols (focused opt)
     then pixel h (focused opt) (r - focusRow opt) (c - focusCol opt)
     else pixel h (blurred opt) r c)"
    unfolding hp_def
    using copyTo_pixel [of tmp "focused opt" "blurred opt" h "focusRow opt" "focusCol opt" r c] alloc
    by (simp add: tmp_def)
  finally show "pixel h' (blurred opt) r c =
    (if focusRow opt \<le> r \<and> r < focusRow opt + rows (focused opt)
        \<and> focusCol opt \<le> c \<and> c < focusCol opt + cols (focused opt)
     then pixel h (focused opt) (r - focusRow opt) (c - focusCol opt)
     else pixel h (blurred opt) r c)" .
  show "h' ! a = h ! a" if "a < length h" "a \<noteq> buf (blurred opt)" for a
  proof -
    have "h' ! a = hp ! a"
      using uncropWrapped_heap(1) [OF u, of a] that by (simp add: h2 len)
    also have "\<dots> = h ! a"
      using that by (simp add: hp_def copyTo_def tmp_def)
    finally show ?thesis .
  qed
qed

lemma extractImage_after_optimizeImage:
  assumes ok: "optimizeImage lib h img angle vAngle = Inr (opt, h1)"
  shows "\<exists>R h2. extractImage lib' h1 opt = Inr (R, h2) \<and> cols R = cols img \<and> rows R = rows img
     \<and> (buf img < length h \<longrightarrow>
          (\<forall>r c. focusRow opt \<le> r \<and> r < focusRow opt + rows (focused opt)
               \<and> focusCol opt \<le> c \<and> c < focusCol opt + cols (focused opt) \<longrightarrow>
             pixel h2 R r ((leftBuffer opt + c) mod cols img)
               = pixel h img r ((leftBuffer opt + c) mod cols img)))"
proof -
  from optimizeImage_inv [OF ok] optimizeImage_dims [OF ok]
  have inv: "0 \<le> focusRow opt" "focusRow opt + rows (focused opt) \<le> rows (blurred opt)"
    "0 \<le> focusCol opt" "focusCol opt + cols (focused opt) \<le> cols (blurred opt)"
    "cols (blurred opt) \<le> fst (fullSize opt)"
    "0 \<le> leftBuffer opt" "leftBuffer opt < fst (fullSize opt)"
    "0 \<le> rows (focused opt)" "0 \<le> cols (focused opt)"
    and fs: "fullSize opt = (cols img, rows img)" and rb: "rows (blurred opt) = rows img"
    by simp_all
  define tmp where "tmp = (blurred opt)\<lparr> row0 := row0 (blurred opt) + focusRow opt, rows := rows (focused opt),
                                   col0 := col0 (blurred opt) + focusCol opt, cols := cols (focused opt) \<rparr>"
  define hp where "hp = copyTo h1 (focused opt) tmp"
  from extractImage_steps [OF inv, of lib' h1]
  obtain R h2 where u: "uncropWrapped lib' hp (blurred opt) (fst (fullSize opt)) (leftBuffer opt) = Inr (R, h2)"
    and d: "cols R = fst (fullSize opt)" "rows R = rows (blurred opt)"
    and e: "extractImage lib' h1 opt = ENSURES (Mat_size R = fullSize opt) (Inr (R, h2))"
    unfolding tmp_def [symmetric] hp_def [symmetric] by blast
  have e': "extractImage lib' h1 opt = Inr (R, h2)"
    using e d by (simp add: ENSURES_def Mat_size_def fs rb)
  have px: "pixel h2 R r ((leftBuffer opt + c) mod cols img)
               = pixel h img r ((leftBuffer opt + c) mod cols img)"
    if alloc: "buf img < length h"
      and r: "focusRow opt \<le> r" "r < focusRow opt + rows (focused opt)"
      and c: "focusCol opt \<le> c" "c < focusCol opt + cols (focused opt)" for r c
  proof -
    from optimizeImage_focused_pixels [OF ok alloc]
    have bb: "buf (blurred opt) < length h1"
      and fp: "\<And>r c. 0 \<le> c \<Longrightarrow> c < cols (focused opt) \<Longrightarrow>
        pixel h1 (focused opt) r c =
          pixel h img (focusRow opt + r) ((leftBuffer opt + focusCol opt + c) mod cols img)"
      by blast+
    have len: "length hp = length h1"
      unfolding hp_def by (rule copyTo_length) (simp_all add: tmp_def)
    have cb: "0 \<le> c" "c < cols (blurred opt)" using c inv by simp_all
    have "pixel h2 R r ((leftBuffer opt + c) mod fst (fullSize opt)) = pixel hp (blurred opt) r c"
      using inv bb cb
      by (intro uncropWrapped_pixels [OF _ _ _ _ _ _ u]) (simp_all add: len)
    also have "\<dots> = pixel h1 (focused opt) (r - focusRow opt) (c - focusCol opt)"
      unfolding hp_def
      using copyTo_pixel [of tmp "focused opt" "blurred opt" h1 "focusRow opt" "focusCol opt" r c]
        bb r c by (simp add: tmp_def)
    also have "\<dots> = pixel h img (focusRow opt + (r - focusRow opt))
        ((leftBuffer opt + focusCol opt + (c - focusCol opt)) mod cols img)"
      using c by (intro fp) simp_all
    finally show ?thesis by (simp add: fs)
  qed
  from e' d px show ?thesis by (simp add: fs rb)
qed

subsection \<open>The test panorama\<close>

lemma testPanorama_dims: "cols testPanorama = 360" "rows testPanorama = 180" "buf testPanorama = 0"
  by (simp_all add: testPanorama_def)

lemma crop_180_contained:
  assumes "cols img = 360" "rows img = 180" "0 \<le> la" "la < 180"
  shows "cropHorizontallyWrapped h img la (la + 180) =
     Inr (img\<lparr> col0 := col0 img + la, cols := 180 \<rparr>, h)"
  using assms
  by (simp add: cropHorizontallyWrapped_def REQUIRES_def subMat_def)

lemma crop_180_wrapped:
  assumes "cols img = 360" "rows img = 180" "180 \<le> la" "la < 360"
  shows "\<exists>g. cropHorizontallyWrapped h img la (la - 180) =
     Inr (\<lparr> buf = length h, row0 = 0, col0 = 0, rows = 180, cols = 180 \<rparr>, h @ [g])"
  using assms
  by (simp add: cropHorizontallyWrapped_def REQUIRES_def ASSERT_def subMat_def hconcat2_def)

lemma mod_360_below: "- 360 \<le> x \<Longrightarrow> x < 0 \<Longrightarrow> x mod 360 = x + (360::int)"
proof -
  assume a: "- 360 \<le> x" "x < 0"
  have "(x + 360) mod 360 = x + 360" using a by (intro mod_pos_pos_trivial) auto
  then show ?thesis by simp
qed

lemma mod_360_above: "360 \<le> x \<Longrightarrow> x < 720 \<Longrightarrow> x mod 360 = x - (360::int)"
proof -
  assume a: "360 \<le> x" "x < 720"
  have "(x - 360) mod 360 = x - 360" using a by (intro mod_pos_pos_trivial) auto
  then show ?thesis by simp
qed

lemma crop_angles:
  fixes angle :: int
  defines "la \<equiv> (angle mod 360 - 90) mod 360" and "ra \<equiv> (angle mod 360 + 90) mod 360"
  shows "0 \<le> la \<and> la < 360 \<and> (la < 180 \<and> ra = la + 180 \<or> 180 \<le> la \<and> ra = la - 180)
     \<and> la = (angle - 90) mod 360"
proof -
  define A where "A = angle mod 360"
  have A: "0 \<le> A" "A < 360" by (simp_all add: A_def)
  have l: "la = (angle - 90) mod 360" by (simp add: la_def mod_diff_left_eq)
  have la: "la = (A - 90) mod 360" and ra: "ra = (A + 90) mod 360"
    by (simp_all add: la_def ra_def A_def)
  consider "A < 90" | "90 \<le> A" "A < 270" | "270 \<le> A" by linarith
  then have "0 \<le> la \<and> la < 360 \<and> (la < 180 \<and> ra = la + 180 \<or> 180 \<le> la \<and> ra = la - 180)"
  proof cases
    case 1
    have "(A - 90) mod 360 = A + 270" "(A + 90) mod 360 = A + 90"
      using 1 A mod_360_below [of "A - 90"] by simp_all
    then show ?thesis using 1 A by (simp add: la ra)
  next
    case 2
    have "(A - 90) mod 360 = A - 90" "(A + 90) mod 360 = A + 90" using 2 A by simp_all
    then show ?thesis using 2 A by (simp add: la ra)
  next
    case 3
    have "(A - 90) mod 360 = A - 90" "(A + 90) mod 360 = A - 270"
      using 3 A mod_360_above [of "A + 90"] by simp_all
    then show ?thesis using 3 A by (simp add: la ra)
  qed
  with l show ?thesis by simp
qed

lemma optimizeImage_360x180:
  assumes "cols img = 360" "rows img = 180" "- (2 ^ 31) \<le> vAngle" "vAngle < 2 ^ 31"
  shows "\<exists>opt h'. optimizeImage lib h img angle vAngle = Inr (opt, h')
     \<and> leftBuffer opt = (angle - 90) mod 360 \<and> focusCol opt = 75
     \<and> focusRow opt = clamp vAngle 15 165 - 15
     \<and> rows (focused opt) = 30 \<and> cols (focused opt) = 30
     \<and> rows (blurred opt) = 180 \<and> cols (blurred opt) = 180
     \<and> fullSize opt = (360, 180)
     \<and> buf (focused opt) = (if (angle - 90) mod 360 < 180 then buf img else length h)
     \<and> row0 (focused opt) =
          (if (angle - 90) mod 360 < 180 then row0 img else 0) + (clamp vAngle 15 165 - 15)
     \<and> col0 (focused opt) =
          (if (angle - 90) mod 360 < 180 then col0 img + (angle - 90) mod 360 else 0) + 75"
proof -
  define A where "A = angle mod 360"
  define la where "la = (A - 90) mod 360"
  define ra where "ra = (A + 90) mod 360"
  from crop_angles [of angle]
  have b: "0 \<le> la" "la < 360"
    and d: "la < 180 \<and> ra = la + 180 \<or> 180 \<le> la \<and> ra = la - 180"
    and l0: "la = (angle - 90) mod 360"
    unfolding la_def ra_def A_def by blast+
  note l = l0 [symmetric]
  have b': "0 \<le> ra" "ra < 360" using b d by auto
  have ca: "constrainAngle angle = Inr A" "constrainAngle (A - 90) = Inr la"
    "constrainAngle (A + 90) = Inr ra"
    by (simp_all add: constrainAngle_mod A_def la_def ra_def)
  have u: "fl (i2d 360 / 360) = 1" "fl (i2d 180 / 180) = 1"
    using unit_scale [of 360] unit_scale [of 180] by simp_all
  have c: "d2i (fl (i2d la)) = Inr la" "d2i (fl (i2d ra)) = Inr ra"
    "d2i (fl (i2d 30)) = Inr 30" "d2i (fl (i2d vAngle)) = Inr vAngle"
    using b b' assms(3,4) by (simp_all add: d2i_i2d)
  have t: "tdiv 180 2 = 90" "tdiv 30 2 = 15" "tdiv 180 3 = 60"
    by (simp_all add: tdiv_nonneg)
  have k: "0 \<le> clamp vAngle 15 165 - 15" "clamp vAngle 15 165 + 15 \<le> 180"
    by (simp_all add: clamp_def)
  have "\<exists>cropped h1. cropHorizontallyWrapped h img la ra = Inr (cropped, h1)
      \<and> cols cropped = 180 \<and> rows cropped = 180
      \<and> buf cropped = (if la < 180 then buf img else length h)
      \<and> row0 cropped = (if la < 180 then row0 img else 0)
      \<and> col0 cropped = (if la < 180 then col0 img + la else 0)"
    using d
  proof
    assume w: "la < 180 \<and> ra = la + 180"
    then show ?thesis
      using crop_180_contained [OF assms(1,2) b(1), of h] by (simp add: assms(2))
  next
    assume w: "180 \<le> la \<and> ra = la - 180"
    then show ?thesis
      using crop_180_wrapped [OF assms(1,2) _ b(2), of h] by auto
  qed
  then obtain cropped h1 where cr: "cropHorizontallyWrapped h img la ra = Inr (cropped, h1)"
    and cd: "cols cropped = 180" "rows cropped = 180"
    and cb: "buf cropped = (if la < 180 then buf img else length h)"
      "row0 cropped = (if la < 180 then row0 img else 0)"
      "col0 cropped = (if la < 180 then col0 img + la else 0)"
    by blast
  show ?thesis
    unfolding optimizeImage_def Let_def focusHeightOf_def
    using b b' k
    by (simp add: ca assms(1,2) CROP_ANGLE_def H_FOCUS_ANGLE_def
        V_FOCUS_ANGLE_def BLUR_FACTOR_def REQUIRES_def ASSERT_def u c t cr cd cb l
        subMat_def resize_def Mat_empty_def Mat_size_def newOptimizedImage_def)
qed

lemma optimizeImage_half:
  "\<exists>opt h'. optimizeImage testLib testHeap halfPanorama 0 0 = Inr (opt, h')
     \<and> rows (focused opt) = 14 \<and> focusRow opt = 0 \<and> cols (focused opt) = 14 \<and> focusCol opt = 38"
  unfolding optimizeImage_def Let_def focusHeightOf_def
  by (simp add: eval_simps halfPanorama_def CROP_ANGLE_def H_FOCUS_ANGLE_def
        V_FOCUS_ANGLE_def BLUR_FACTOR_def REQUIRES_def ASSERT_def clamp_def
        cropHorizontallyWrapped_def hconcat2_def
        subMat_def resize_def Mat_empty_def Mat_size_def newOptimizedImage_def)

lemma extractImage_pasted:
  "\<exists>R h'. extractImage testLib pastedHeap pastedImage = Inr (R, h')
     \<and> pixel h' (blurred pastedImage) 0 0 = Vec3 9 9 9
     \<and> pixel pastedHeap (blurred pastedImage) 0 0 = Vec3 1 1 1"
  unfolding extractImage_def Let_def uncropWrapped_def
  by (simp add: pastedImage_def pastedHeap_def subMat_def copyTo_def Mat_empty_def inside_def
      pixel_def Mat_size_def ASSERT_def ENSURES_def newMat_def setTo_def hconcat3_def nth_append)

lemma extractImage_short_surround:
  "extractImage testLib pastedHeap (pastedImage\<lparr> fullSize := (4, 3) \<rparr>) = Inl ContractViolation"
  using extractImage_steps [of "pastedImage\<lparr> fullSize := (4, 3) \<rparr>" testLib pastedHeap]
  by (auto simp: pastedImage_def ENSURES_def Mat_size_def)

subsection \<open>The encoder returns for every panorama of at least 8 by 3 pixels\<close>

text \<open>
  Rounding to binary64 moves a non-negative number by at most \<open>1 / 2 ^ 53\<close> of itself. A
  column \<^verbatim>\<open>(int)(a * (W / 360.0))\<close> is therefore \<open>\<lfloor>a W / 360\<rfloor>\<close> or, when
  \<open>a W / 360\<close> is an integer, possibly one less; this is all the assertions of the
  encoder need.
\<close>

lemma round_even_near: "\<bar>of_int (round_even q) - q\<bar> \<le> 1 / 2"
proof -
  define f where "f = \<lfloor>q\<rfloor>"
  define r where "r = q - of_int f"
  define k where "k = round_even q"
  have r: "0 \<le> r" "r < 1" unfolding r_def f_def by linarith+
  have k: "k = (if r < 1 / 2 then f else if 1 / 2 < r then f + 1
                else if even f then f else f + 1)"
    by (simp add: k_def round_even_def Let_def f_def r_def)
  have d: "of_int k - q = of_int (k - f) - r" by (simp add: r_def)
  consider "r < 1 / 2" | "1 / 2 < r" | "r = 1 / 2" by linarith
  then have "\<bar>of_int k - q\<bar> \<le> 1 / 2"
  proof cases
    case 1
    then have "k - f = 0" by (simp add: k)
    then show ?thesis unfolding d using r 1 by simp
  next
    case 2
    then have "k - f = 1" by (simp add: k)
    then show ?thesis unfolding d using r 2 by simp
  next
    case 3
    then have "k - f = 0 \<or> k - f = 1" by (simp add: k)
    then show ?thesis unfolding d using 3 by auto
  qed
  then show ?thesis by (simp add: k_def)
qed

lemma round_even_nonneg: "0 \<le> q \<Longrightarrow> 0 \<le> round_even q"
  by (auto simp: round_even_def Let_def)

lemma fl_error:
  assumes "0 \<le> x"
  shows "\<bar>fl x - x\<bar> \<le> x / 2 ^ 53" and "0 \<le> fl x"
proof -
  have "\<bar>fl x - x\<bar> \<le> x / 2 ^ 53 \<and> 0 \<le> fl x"
  proof (cases "x = 0")
    case True
    then show ?thesis by (simp add: fl_def)
  next
    case False
    then have xpos: "0 < x" using assms by simp
    define e where "e = expo x"
    define s where "s = 52 - e"
    define m where "m = round_even (x * pow2 s)"
    have eb: "pow2 e \<le> x" using expo_bounds [OF xpos] by (simp add: e_def)
    have f: "fl x = of_int m * pow2 (- s)"
      using xpos by (simp add: fl_def Let_def e_def s_def m_def)
    have inv: "pow2 s * pow2 (- s) = 1"
      unfolding pow2_add [symmetric] by (simp add: pow2_def)
    have "fl x - x = (of_int m - x * pow2 s) * pow2 (- s)"
      using inv by (simp add: f algebra_simps)
    then have "\<bar>fl x - x\<bar> = \<bar>of_int m - x * pow2 s\<bar> * pow2 (- s)"
      using pow2_pos [of "- s"] by (simp add: abs_mult)
    also have "\<dots> \<le> (1 / 2) * pow2 (- s)"
      using round_even_near [of "x * pow2 s"] pow2_pos [of "- s"]
      unfolding m_def by (intro mult_right_mono) auto
    also have "(1 / 2) * pow2 (- s) = pow2 e / 2 ^ 53"
    proof -
      have "pow2 (- s) = pow2 e * pow2 (- 52)" unfolding pow2_add [symmetric] by (simp add: s_def)
      then show ?thesis by (simp add: pow2_def)
    qed
    also have "\<dots> \<le> x / 2 ^ 53" using eb by (simp add: divide_right_mono)
    finally have 1: "\<bar>fl x - x\<bar> \<le> x / 2 ^ 53" .
    have "0 \<le> m" unfolding m_def using xpos pow2_pos [of s] by (intro round_even_nonneg) simp
    then have 2: "0 \<le> fl x" using pow2_pos [of "- s"] by (simp add: f)
    from 1 2 show ?thesis ..
  qed
  then show "\<bar>fl x - x\<bar> \<le> x / 2 ^ 53" and "0 \<le> fl x" by simp_all
qed

lemma scale_bounds:
  assumes a: "0 \<le> a" "a \<le> D" and D: "0 < D" "D \<le> 360" and W: "0 \<le> W" "W < 2 ^ 31"
  shows "\<exists>k. d2i (fl (i2d a * fl (i2d W / of_int D))) = Inr k
     \<and> 0 \<le> k \<and> a * W - D \<le> D * k \<and> D * k \<le> a * W"
proof -
  define eps :: rat where "eps = 1 / 2 ^ 53"
  define t :: rat where "t = of_int W / of_int D"
  define s where "s = fl t"
  define x :: rat where "x = of_int a * t"
  define p :: rat where "p = of_int a * s"
  define q where "q = fl p"
  have ia: "i2d a = of_int a" using a D by (intro i2d_exact) simp
  have iW: "i2d W = of_int W" using W by (intro i2d_exact) simp
  have t0: "0 \<le> t" using W D by (simp add: t_def)
  have s: "\<bar>s - t\<bar> \<le> t * eps" "0 \<le> s"
    using fl_error [OF t0] by (simp_all add: s_def eps_def)
  have x0: "0 \<le> x" using a t0 by (simp add: x_def)
  have p0: "0 \<le> p" using a s by (simp add: p_def)
  have "\<bar>p - x\<bar> = of_int a * \<bar>s - t\<bar>"
    using a by (simp add: p_def x_def right_diff_distrib [symmetric] abs_mult)
  also have "\<dots> \<le> of_int a * (t * eps)"
    using a s by (intro mult_left_mono) simp_all
  finally have px: "\<bar>p - x\<bar> \<le> x * eps" by (simp add: x_def mult.assoc)
  have q: "\<bar>q - p\<bar> \<le> p * eps" "0 \<le> q"
    using fl_error [OF p0] by (simp_all add: q_def eps_def)
  have e0: "0 \<le> eps" "eps \<le> 1" by (simp_all add: eps_def)
  have "p \<le> x + x * eps" using px by linarith
  then have "p * eps \<le> (x + x * eps) * eps" using e0 by (intro mult_right_mono) simp_all
  also have "\<dots> \<le> 2 * x * eps"
  proof -
    have "x * eps * eps \<le> x * eps * 1" using x0 e0 by (intro mult_left_mono) simp_all
    then show ?thesis by (simp add: algebra_simps)
  qed
  finally have "\<bar>q - p\<bar> \<le> 2 * x * eps" using q by linarith
  with px have qx: "\<bar>q - x\<bar> \<le> 3 * x * eps" by linarith
  have xW: "x \<le> of_int W"
  proof -
    have "of_int a * of_int W \<le> (of_int D :: rat) * of_int W"
      using a W by (intro mult_right_mono) simp_all
    then show ?thesis using D by (simp add: x_def t_def field_simps)
  qed
  have "(of_int W :: rat) \<le> 2 ^ 31" using W by (simp add: of_int_le_iff [of W "2 ^ 31", simplified])
  with xW have "x \<le> 2 ^ 31" by linarith
  then have "3 * x * eps \<le> 3 * 2 ^ 31 * eps" using e0 by (intro mult_right_mono) simp_all
  also have "\<dots> < 1 / 720" by (simp add: eps_def)
  finally have d: "\<bar>q - x\<bar> < 1 / 720" using qx by linarith
  define k where "k = \<lfloor>q\<rfloor>"
  have kq: "of_int k \<le> q" "q < of_int k + 1" unfolding k_def by linarith+
  have k0: "0 \<le> k" using q(2) by (simp add: k_def)
  have Dx: "of_int D * x = of_int (a * W)" using D by (simp add: x_def t_def)
  have Dpos: "(0::rat) < of_int D" "(of_int D :: rat) \<le> 360" using D by simp_all
  have "of_int D * of_int k \<le> of_int D * q" using kq Dpos by (intro mult_left_mono) simp_all
  also have "\<dots> < of_int D * (x + 1 / 720)" using d Dpos by (intro mult_strict_left_mono) linarith+
  also have "\<dots> \<le> of_int (a * W) + 1 / 2"
  proof -
    have "of_int D * (1 / 720 :: rat) \<le> 360 * (1 / 720)" using Dpos by (intro mult_right_mono) simp_all
    then show ?thesis using Dx by (simp add: algebra_simps)
  qed
  finally have "(of_int (D * k) :: rat) < of_int (a * W) + 1" by simp
  then have "(of_int (D * k) :: rat) < of_int (a * W + 1)" by simp
  then have up: "D * k \<le> a * W" unfolding of_int_less_iff by simp
  have "of_int (a * W) - 1 / 2 \<le> of_int D * (x - 1 / 720)"
  proof -
    have "of_int D * (1 / 720 :: rat) \<le> 360 * (1 / 720)" using Dpos by (intro mult_right_mono) simp_all
    then show ?thesis using Dx by (simp add: algebra_simps)
  qed
  also have "\<dots> < of_int D * q" using d Dpos by (intro mult_strict_left_mono) linarith+
  also have "\<dots> < of_int D * (of_int k + 1)" using kq Dpos by (intro mult_strict_left_mono) simp_all
  finally have "(of_int (a * W) :: rat) - 1 < of_int (D * k + D)" by (simp add: algebra_simps)
  then have "(of_int (a * W - 1) :: rat) < of_int (D * k + D)" by simp
  then have lo: "a * W - D \<le> D * k" unfolding of_int_less_iff by simp
  have "D * k \<le> D * W"
  proof -
    have "a * W \<le> D * W" using a W by (intro mult_right_mono) simp_all
    with up show ?thesis by simp
  qed
  then have "k \<le> W" using D by simp
  then have kr: "k < 2 ^ 31" using W by simp
  have "trunc q = k" using q(2) by (simp add: trunc_def k_def)
  then have "d2i q = Inr k" using k0 kr by (simp add: d2i_def)
  then have "d2i (fl (i2d a * fl (i2d W / of_int D))) = Inr k"
    by (simp add: q_def p_def s_def t_def ia iW)
  with k0 lo up show ?thesis by blast
qed

lemma fl_minus: "fl (- x) = - fl x"
  by (simp add: fl_def Let_def)

lemma fl_abs_le:
  "\<bar>fl x\<bar> \<le> \<bar>x\<bar> * (9 / 8)"
proof -
  have e: "\<bar>fl y - y\<bar> \<le> y / 2 ^ 53" "0 \<le> fl y" if "0 \<le> y" for y
    using fl_error [OF that] by simp_all
  have p: "fl y \<le> y * (9 / 8)" "0 \<le> fl y" if y: "0 \<le> y" for y
  proof -
    have "y / 2 ^ 53 \<le> y / 8" using y by (intro divide_left_mono) simp_all
    moreover have "fl y - y \<le> y / 2 ^ 53" using e(1) [OF y] by linarith
    ultimately have "fl y \<le> y + y / 8" by linarith
    then show "fl y \<le> y * (9 / 8)" by simp
    show "0 \<le> fl y" using e(2) [OF y] .
  qed
  show ?thesis
  proof (cases "0 \<le> x")
    case True
    then show ?thesis using p [of x] by simp
  next
    case False
    then have "0 \<le> - x" by simp
    from p [OF this] show ?thesis using False by (simp add: fl_minus)
  qed
qed

lemma vscale_range:
  assumes "0 \<le> H" "\<bar>v\<bar> * H \<le> 180 * 2 ^ 30"
  shows "\<exists>k. d2i (fl (i2d v * fl (i2d H / 180))) = Inr k"
proof -
  define q where "q = fl (i2d v * fl (i2d H / 180))"
  have 1: "\<bar>i2d v\<bar> \<le> \<bar>of_int v\<bar> * (9 / 8)" unfolding i2d_def by (rule fl_abs_le)
  have 2: "\<bar>i2d H\<bar> \<le> \<bar>of_int H\<bar> * (9 / 8)" unfolding i2d_def by (rule fl_abs_le)
  have "\<bar>fl (i2d H / 180)\<bar> \<le> \<bar>i2d H / 180\<bar> * (9 / 8)" by (rule fl_abs_le)
  also have "\<dots> \<le> (\<bar>of_int H\<bar> * (9 / 8) / 180) * (9 / 8)"
    using 2 by (simp add: divide_right_mono)
  finally have 3: "\<bar>fl (i2d H / 180)\<bar> \<le> \<bar>of_int H\<bar> * (81 / 64) / 180" by simp
  have "\<bar>q\<bar> \<le> \<bar>i2d v * fl (i2d H / 180)\<bar> * (9 / 8)" unfolding q_def by (rule fl_abs_le)
  also have "\<bar>i2d v * fl (i2d H / 180)\<bar> = \<bar>i2d v\<bar> * \<bar>fl (i2d H / 180)\<bar>" by (simp add: abs_mult)
  also have "\<dots> \<le> (\<bar>of_int v\<bar> * (9 / 8)) * (\<bar>of_int H\<bar> * (81 / 64) / 180)"
    using 1 3 by (intro mult_mono) simp_all
  finally have qz: "\<bar>q\<bar> \<le> (\<bar>of_int v\<bar> * \<bar>of_int H\<bar>) * (6561 / 737280)"
    by (simp add: algebra_simps)
  have z: "\<bar>of_int v\<bar> * \<bar>of_int H\<bar> \<le> (180 * 2 ^ 30 :: rat)"
  proof -
    have "\<bar>of_int v :: rat\<bar> * \<bar>of_int H\<bar> = of_int (\<bar>v\<bar> * H)" using assms(1) by simp
    also have "\<dots> \<le> of_int (180 * 2 ^ 30)" using assms(2) unfolding of_int_le_iff .
    finally show ?thesis by simp
  qed
  have "(\<bar>of_int v\<bar> * \<bar>of_int H\<bar>) * (6561 / 737280) \<le> (180 * 2 ^ 30) * (6561 / 737280 :: rat)"
    using z by (intro mult_right_mono) simp_all
  with qz have "\<bar>q\<bar> \<le> (180 * 2 ^ 30) * (6561 / 737280)" by linarith
  then have b: "\<bar>q\<bar> < 2 ^ 31" by simp
  have "\<bar>of_int (trunc q) :: rat\<bar> \<le> \<bar>q\<bar>"
  proof (cases "0 \<le> q")
    case True
    then have "0 \<le> \<lfloor>q\<rfloor>" "of_int \<lfloor>q\<rfloor> \<le> q" by simp_all
    then show ?thesis using True by (simp add: trunc_def)
  next
    case False
    then have "\<lceil>q\<rceil> \<le> 0" "q \<le> of_int \<lceil>q\<rceil>" by (simp_all add: ceiling_le_zero)
    then show ?thesis using False by (simp add: trunc_def)
  qed
  with b have "\<bar>of_int (trunc q) :: rat\<bar> < of_int (2 ^ 31)" by simp
  then have "\<bar>trunc q\<bar> < 2 ^ 31"
    by (metis of_int_abs of_int_less_iff)
  then have "- (2 ^ 31) \<le> trunc q \<and> trunc q < 2 ^ 31" by linarith
  then have "d2i q = Inr (trunc q)" by (simp add: d2i_def Let_def)
  then show ?thesis unfolding q_def by blast
qed

lemma scale_360:
  assumes "0 \<le> a" "a < 360" "0 \<le> W" "W < 2 ^ 31"
  obtains k where "d2i (fl (i2d a * fl (i2d W / 360))) = Inr k" "0 \<le> k"
    "a * W - 360 \<le> 360 * k" "360 * k \<le> a * W"
proof -
  have "\<exists>k. d2i (fl (i2d a * fl (i2d W / of_int 360))) = Inr k
     \<and> 0 \<le> k \<and> a * W - 360 \<le> 360 * k \<and> 360 * k \<le> a * W"
    by (rule scale_bounds) (use assms in simp_all)
  then show ?thesis using that by auto
qed

lemma scale_180:
  assumes "0 \<le> a" "a \<le> 180" "0 \<le> W" "W < 2 ^ 31"
  obtains k where "d2i (fl (i2d a * fl (i2d W / 180))) = Inr k" "0 \<le> k"
    "a * W - 180 \<le> 180 * k" "180 * k \<le> a * W"
proof -
  have "\<exists>k. d2i (fl (i2d a * fl (i2d W / of_int 180))) = Inr k
     \<and> 0 \<le> k \<and> a * W - 180 \<le> 180 * k \<and> 180 * k \<le> a * W"
    by (rule scale_bounds) (use assms in simp_all)
  then show ?thesis using that by auto
qed

lemma crop_total:
  assumes la: "0 \<le> la" "la < 360"
    and d: "la < 180 \<and> ra = la + 180 \<or> 180 \<le> la \<and> ra = la - 180"
    and W: "8 \<le> cols img"
    and L: "0 \<le> L" "la * cols img - 360 \<le> 360 * L" "360 * L \<le> la * cols img"
    and R: "0 \<le> R" "ra * cols img - 360 \<le> 360 * R" "360 * R \<le> ra * cols img"
  shows "\<exists>cropped h1. cropHorizontallyWrapped h img L R = Inr (cropped, h1)
      \<and> rows cropped = rows img \<and> cols img - 2 \<le> 2 * cols cropped
      \<and> 2 * cols cropped \<le> cols img + 2 \<and> L < cols img \<and> R < cols img"
proof -
  define Wd where "Wd = cols img"
  define u where "u = la * Wd"
  define ur where "ur = ra * Wd"
  note L' = L [folded Wd_def, folded u_def]
  note R' = R [folded Wd_def, folded ur_def]
  have Wb: "8 \<le> Wd" using W by (simp add: Wd_def)
  have rb: "0 \<le> ra" "ra < 360" using la d by auto
  have "u \<le> 359 * Wd" unfolding u_def using la Wb by (intro mult_right_mono) simp_all
  with L' have LW: "L < Wd" using Wb by linarith
  have "ur \<le> 359 * Wd" unfolding ur_def using rb Wb by (intro mult_right_mono) simp_all
  with R' have RW: "R < Wd" using Wb by linarith
  from d show ?thesis
  proof
    assume w: "la < 180 \<and> ra = la + 180"
    then have "ra = la + 180" by simp
    then have e: "ur = u + 180 * Wd" unfolding u_def ur_def by (simp add: algebra_simps)
    have c: "180 * Wd - 360 \<le> 360 * R - 360 * L" "360 * R - 360 * L \<le> 180 * Wd + 360"
      using R'(2,3) L'(2,3) e by linarith+
    then have lr: "L < R" using Wb by linarith
    have c': "Wd - 2 \<le> 2 * (R - L)" "2 * (R - L) \<le> Wd + 2" using c by arith+
    have "cropHorizontallyWrapped h img L R = Inr (img\<lparr> col0 := col0 img + L, cols := R - L \<rparr>, h)"
      using lr L(1) R(1) LW RW
      by (simp add: cropHorizontallyWrapped_def REQUIRES_def subMat_def Wd_def)
    then show ?thesis using c' LW RW by (simp add: Wd_def)
  next
    assume w: "180 \<le> la \<and> ra = la - 180"
    then have "la = ra + 180" by simp
    then have e: "ur = u - 180 * Wd" unfolding u_def ur_def by (simp add: algebra_simps)
    have c: "180 * Wd - 360 \<le> 360 * L - 360 * R" "360 * L - 360 * R \<le> 180 * Wd + 360"
      using R'(2,3) L'(2,3) e by linarith+
    then have lr: "R < L" using Wb by linarith
    have c': "Wd - 2 \<le> 2 * (Wd - L + R)" "2 * (Wd - L + R) \<le> Wd + 2" using c by arith+
    have "\<exists>g. cropHorizontallyWrapped h img L R =
        Inr (\<lparr> buf = length h, row0 = 0, col0 = 0, rows = rows img, cols = cols img - L + R \<rparr>, h @ [g])"
      using lr L(1) R(1) LW RW
      by (simp add: cropHorizontallyWrapped_def REQUIRES_def ASSERT_def subMat_def hconcat2_def Wd_def)
    then show ?thesis using c' LW RW by (auto simp: Wd_def)
  qed
qed

lemma optimizeImage_total:
  assumes W: "8 \<le> cols img" "cols img < 2 ^ 31"
    and H: "3 \<le> rows img" "rows img < 2 ^ 31"
    and v: "\<bar>vAngle\<bar> * rows img \<le> 180 * 2 ^ 30"
  shows "\<exists>opt h'. optimizeImage lib h img angle vAngle = Inr (opt, h')"
proof -
  define A where "A = angle mod 360"
  define la where "la = (A - 90) mod 360"
  define ra where "ra = (A + 90) mod 360"
  from crop_angles [of angle]
  have b: "0 \<le> la" "la < 360"
    and d: "la < 180 \<and> ra = la + 180 \<or> 180 \<le> la \<and> ra = la - 180"
    unfolding la_def ra_def A_def by blast+
  have b': "0 \<le> ra" "ra < 360" using b d by auto
  have ca: "constrainAngle angle = Inr A" "constrainAngle (A - 90) = Inr la"
    "constrainAngle (A + 90) = Inr ra"
    by (simp_all add: constrainAngle_mod A_def la_def ra_def)
  have W0: "0 \<le> cols img" and H0: "0 \<le> rows img" using W H by simp_all
  obtain L where L: "d2i (fl (i2d la * fl (i2d (cols img) / 360))) = Inr L"
    "0 \<le> L" "la * cols img - 360 \<le> 360 * L" "360 * L \<le> la * cols img"
    using scale_360 [OF b W0 W(2)] by blast
  obtain R where R: "d2i (fl (i2d ra * fl (i2d (cols img) / 360))) = Inr R"
    "0 \<le> R" "ra * cols img - 360 \<le> 360 * R" "360 * R \<le> ra * cols img"
    using scale_360 [OF b' W0 W(2)] by blast
  obtain fw where fw: "d2i (fl (i2d 30 * fl (i2d (cols img) / 360))) = Inr fw"
    "0 \<le> fw" "30 * cols img - 360 \<le> 360 * fw" "360 * fw \<le> 30 * cols img"
    using scale_360 [of 30 "cols img"] W0 W(2) by auto
  obtain fh where fh: "d2i (fl (i2d 30 * fl (i2d (rows img) / 180))) = Inr fh"
    "0 \<le> fh" "180 * fh \<le> 30 * rows img"
    using scale_180 [of 30 "rows img"] H0 H(2) by auto
  obtain vr where vr: "d2i (fl (i2d vAngle * fl (i2d (rows img) / 180))) = Inr vr"
    using vscale_range [OF H0 v] by blast
  from crop_total [OF b d W(1) L(2,3,4) R(2,3,4), of h]
  obtain cropped h1 where cr: "cropHorizontallyWrapped h img L R = Inr (cropped, h1)"
    and cd: "rows cropped = rows img" "cols img - 2 \<le> 2 * cols cropped"
      "2 * cols cropped \<le> cols img + 2" and LW: "L < cols img" and RW: "R < cols img"
    by blast
  define cw where "cw = cols cropped"
  define Hd where "Hd = rows img"
  have cw3: "3 \<le> cw" using cd(2) W(1) unfolding cw_def by linarith
  have fc: "fw < cw" using fw(3,4) cd(2) W(1) unfolding cw_def by linarith
  have Hb: "3 \<le> Hd" using H(1) by (simp add: Hd_def)
  have t: "tdiv cw 2 = cw div 2" "tdiv fw 2 = fw div 2" "tdiv fh 2 = fh div 2"
    "tdiv cw 3 = cw div 3" "tdiv Hd 3 = Hd div 3" "tdiv 180 2 = 90"
    using cw3 fw(2) fh(2) Hb by (simp_all add: tdiv_nonneg)
  have a1: "0 \<le> cw div 2 - fw div 2" using fc fw(2) by arith
  have a2: "cw div 2 - fw div 2 \<le> cw div 2 + fw div 2" using fw(2) by arith
  have a3: "cw div 2 + fw div 2 < cw" using fc fw(2) by arith
  have r1: "0 < cw div 3" "0 < Hd div 3" using cw3 Hb by arith+
  define lo where "lo = fh div 2"
  have lo: "0 \<le> lo" "2 * lo \<le> Hd" using fh(2,3) unfolding lo_def Hd_def by arith+
  have k: "0 \<le> clamp vr lo (Hd - lo) - lo" "clamp vr lo (Hd - lo) + lo \<le> Hd"
    "clamp vr lo (Hd - lo) - lo \<le> clamp vr lo (Hd - lo) + lo"
    using lo by (simp_all add: clamp_def)
  have mid: "subMat cropped Range_all (Range (cw div 2 - fw div 2) (cw div 2 + fw div 2)) =
      Inr (cropped\<lparr> col0 := col0 cropped + (cw div 2 - fw div 2),
                    cols := 2 * (fw div 2) \<rparr>)"
    using a1 a2 a3 by (simp add: subMat_def cw_def)
  have foc: "\<exists>f. subMat (cropped\<lparr> col0 := col0 cropped + (cw div 2 - fw div 2),
                    cols := 2 * (fw div 2) \<rparr>)
        (Range (clamp vr lo (Hd - lo) - lo) (clamp vr lo (Hd - lo) + lo)) Range_all = Inr f"
    using k by (simp add: subMat_def cd(1) Hd_def)
  then obtain f where foc': "subMat (cropped\<lparr> col0 := col0 cropped + (cw div 2 - fw div 2),
                    cols := 2 * (fw div 2) \<rparr>)
        (Range (clamp vr lo (Hd - lo) - lo) (clamp vr lo (Hd - lo) + lo)) Range_all = Inr f"
    by blast
  have rs: "\<exists>small h2 blur h3. resize lib h1 cropped (cw div 3, Hd div 3) = Inr (small, h2)
      \<and> resize lib h2 small (cw, Hd) = Inr (blur, h3)"
    using r1 cw3 Hb by (simp add: resize_def Mat_empty_def cw_def [symmetric] cd(1) Hd_def [symmetric])
  then obtain small h2 blur h3 where rs': "resize lib h1 cropped (cw div 3, Hd div 3) = Inr (small, h2)"
    "resize lib h2 small (cw, Hd) = Inr (blur, h3)" by blast
  show ?thesis
    unfolding optimizeImage_def Let_def focusHeightOf_def
    using L(2) LW R(2) RW a1 a2 a3
    by (simp add: ca CROP_ANGLE_def H_FOCUS_ANGLE_def V_FOCUS_ANGLE_def BLUR_FACTOR_def
        REQUIRES_def ASSERT_def L(1) R(1) fw(1) fh(1) [folded Hd_def] vr [folded Hd_def]
        cr cd(1) cw_def [symmetric] Hd_def [symmetric] t lo_def [symmetric] mid foc' rs')
qed

subsection \<open>The optimizer and its decoder\<close>

lemma optimizeImage_rejects_1x1: "optimizeImage testLib testHeap \<lparr> buf = 0, row0 = 0, col0 = 0, rows = 1, cols = 1 \<rparr> 0 0 = Inl ContractViolation"
proof -
  have f: "d2i (fl (i2d 270 * fl (i2d 1 / 360))) = Inr 0" "d2i (fl (i2d 90 * fl (i2d 1 / 360))) = Inr 0"
    by code_simp+
  show ?thesis
    unfolding optimizeImage_def Let_def
    apply (simp add: constrainAngle_mod  CROP_ANGLE_def H_FOCUS_ANGLE_def tdiv_nonneg f
        REQUIRES_def ASSERT_def cropHorizontallyWrapped_def)
    done
qed

text \<open>
  C1 (foveal fidelity of the round trip). Whenever \<^verbatim>\<open>optimizeImage\<close> returns a record
  for a panorama \<open>img\<close> whose storage is allocated, \<^verbatim>\<open>extractImage\<close> of that record
  returns an image \<open>R\<close>, and for every row \<open>r\<close> and column \<open>c\<close> of the rectangle
  \<open>[focusRow, focusRow + fh) \<times> [focusCol, focusCol + fw)\<close> the pixel of \<open>R\<close> in row
  \<open>r\<close> and panorama column \<open>(leftBuffer + c) mod W\<close> is the pixel of the panorama
  there. The panorama itself is the same before and after.
\<close>

theorem foveal_fidelity:
  assumes "optimizeImage lib h img angle vAngle = Inr (opt, h1)" "buf img < length h"
  shows "\<exists>R h2. extractImage lib h1 opt = Inr (R, h2)
     \<and> (\<forall>r c. focusRow opt \<le> r \<and> r < focusRow opt + rows (focused opt)
               \<and> focusCol opt \<le> c \<and> c < focusCol opt + cols (focused opt) \<longrightarrow>
             pixel h2 R r ((leftBuffer opt + c) mod cols img)
               = pixel h img r ((leftBuffer opt + c) mod cols img))
     \<and> (\<forall>r c. pixel h2 img r c = pixel h img r c)"
proof -
  from extractImage_after_optimizeImage [OF assms(1), of lib] assms(2)
  obtain R h2 where e: "extractImage lib h1 opt = Inr (R, h2)"
    and p: "\<forall>r c. focusRow opt \<le> r \<and> r < focusRow opt + rows (focused opt)
               \<and> focusCol opt \<le> c \<and> c < focusCol opt + cols (focused opt) \<longrightarrow>
             pixel h2 R r ((leftBuffer opt + c) mod cols img)
               = pixel h img r ((leftBuffer opt + c) mod cols img)"
    by blast
  from optimizeImage_heap [OF assms(1)]
  obtain g where g: "h1 = h @ g" "g \<noteq> []" "buf (blurred opt) = length h1 - 1" by blast
  from g(2) obtain x g' where g': "g = x # g'" by (cases g) auto
  have lt: "buf img < length h1" "buf img \<noteq> buf (blurred opt)" "buf (blurred opt) < length h1"
    using g(1,3) assms(2) by (simp_all add: g')
  from optimizeImage_inv [OF assms(1)] optimizeImage_dims [OF assms(1)]
  have inv: "0 \<le> focusRow opt" "focusRow opt + rows (focused opt) \<le> rows (blurred opt)"
    "0 \<le> focusCol opt" "focusCol opt + cols (focused opt) \<le> cols (blurred opt)"
    "cols (blurred opt) \<le> fst (fullSize opt)"
    "0 \<le> leftBuffer opt" "leftBuffer opt < fst (fullSize opt)"
    "0 \<le> rows (focused opt)" "0 \<le> cols (focused opt)"
    by simp_all
  have "h2 ! buf img = h1 ! buf img"
    using extractImage_overwrites_blurred(2) [OF inv lt(3) e] lt by blast
  also have "\<dots> = h ! buf img" using assms(2) by (simp add: g nth_append)
  finally have "\<forall>r c. pixel h2 img r c = pixel h img r c" by (simp add: pixel_def)
  with e p show ?thesis by blast
qed

theorem foveal_fidelity_witness:
  "\<exists>opt h1 R h2. optimizeImage testLib testHeap testPanorama 0 90 = Inr (opt, h1)
     \<and> extractImage testLib h1 opt = Inr (R, h2)
     \<and> focusRow opt = 75 \<and> focusCol opt = 75 \<and> leftBuffer opt = 270
     \<and> rows (focused opt) = 30 \<and> cols (focused opt) = 30
     \<and> pixel h2 R 80 10 = Vec3 10 80 0 \<and> pixel h2 R 80 350 = Vec3 350 80 0"
proof -
  from optimizeImage_360x180 [of testPanorama 90 testLib testHeap 0]
  obtain opt h1 where enc: "optimizeImage testLib testHeap testPanorama 0 90 = Inr (opt, h1)"
    and v: "leftBuffer opt = 270" "focusCol opt = 75" "focusRow opt = 75"
      "rows (focused opt) = 30" "cols (focused opt) = 30"
    by (auto simp: testPanorama_dims clamp_def)
  have alloc: "buf testPanorama < length testHeap"
    by (simp add: testPanorama_def testHeap_def)
  from foveal_fidelity [OF enc alloc]
  obtain R h2 where dec: "extractImage testLib h1 opt = Inr (R, h2)"
    and px: "\<And>r c. 75 \<le> r \<Longrightarrow> r < 105 \<Longrightarrow> 75 \<le> c \<Longrightarrow> c < 105 \<Longrightarrow>
      pixel h2 R r ((270 + c) mod 360) = pixel testHeap testPanorama r ((270 + c) mod 360)"
    by (auto simp: v testPanorama_dims)
  have "pixel h2 R 80 10 = Vec3 10 80 0"
    using px [of 80 100] by (simp add: pixel_def testHeap_def testPanorama_def)
  moreover have "pixel h2 R 80 350 = Vec3 350 80 0"
    using px [of 80 80] by (simp add: pixel_def testHeap_def testPanorama_def)
  ultimately show ?thesis using enc dec v by blast
qed

text \<open>
  C2 (dimension preservation). Whenever \<^verbatim>\<open>optimizeImage\<close> returns a record,
  \<^verbatim>\<open>extractImage\<close> of it returns an image of the panorama's dimensions, which are
  the record's \<open>fullSize\<close>; it is what \<^verbatim>\<open>processImage\<close> returns. The theorem does
  not depend on the branch of \<^verbatim>\<open>uncropWrapped\<close>; the two instances after it are one
  of the wrapped branch (\<open>cw + leftBuffer \<ge> W\<close>) and one of the contained branch.
\<close>

theorem dimension_preservation:
  assumes "optimizeImage lib h img angle vAngle = Inr (opt, h1)"
  shows "\<exists>R h2. extractImage lib h1 opt = Inr (R, h2)
     \<and> processImage lib h img angle vAngle = Inr (R, h2)
     \<and> Mat_size R = Mat_size img \<and> Mat_size R = fullSize opt"
proof -
  from extractImage_after_optimizeImage [OF assms, of lib]
  obtain R h2 where "extractImage lib h1 opt = Inr (R, h2)" "cols R = cols img" "rows R = rows img"
    by blast
  moreover have "fullSize opt = (cols img, rows img)"
    using optimizeImage_inv [OF assms] by simp
  ultimately show ?thesis
    by (simp add: processImage_def assms Mat_size_def)
qed

theorem dimension_preservation_witness:
  "(\<exists>opt h1 R h2. optimizeImage testLib testHeap testPanorama 0 90 = Inr (opt, h1)
      \<and> fst (fullSize opt) \<le> cols (blurred opt) + leftBuffer opt
      \<and> extractImage testLib h1 opt = Inr (R, h2) \<and> Mat_size R = (360, 180))
   \<and> (\<exists>opt h1 R h2. optimizeImage testLib testHeap testPanorama 180 90 = Inr (opt, h1)
      \<and> cols (blurred opt) + leftBuffer opt < fst (fullSize opt)
      \<and> extractImage testLib h1 opt = Inr (R, h2) \<and> Mat_size R = (360, 180))"
proof
  from optimizeImage_360x180 [of testPanorama 90 testLib testHeap 0]
  obtain opt h1 where enc: "optimizeImage testLib testHeap testPanorama 0 90 = Inr (opt, h1)"
    and v: "leftBuffer opt = 270" "cols (blurred opt) = 180" "fullSize opt = (360, 180)"
    by (auto simp: testPanorama_dims)
  from dimension_preservation [OF enc]
  obtain R h2 where "extractImage testLib h1 opt = Inr (R, h2)" "Mat_size R = (360, 180)"
    by (auto simp: v)
  with enc v show "\<exists>opt h1 R h2. optimizeImage testLib testHeap testPanorama 0 90 = Inr (opt, h1)
      \<and> fst (fullSize opt) \<le> cols (blurred opt) + leftBuffer opt
      \<and> extractImage testLib h1 opt = Inr (R, h2) \<and> Mat_size R = (360, 180)"
    by auto
next
  from optimizeImage_360x180 [of testPanorama 90 testLib testHeap 180]
  obtain opt h1 where enc: "optimizeImage testLib testHeap testPanorama 180 90 = Inr (opt, h1)"
    and v: "leftBuffer opt = 90" "cols (blurred opt) = 180" "fullSize opt = (360, 180)"
    by (auto simp: testPanorama_dims)
  from dimension_preservation [OF enc]
  obtain R h2 where "extractImage testLib h1 opt = Inr (R, h2)" "Mat_size R = (360, 180)"
    by (auto simp: v)
  with enc v show "\<exists>opt h1 R h2. optimizeImage testLib testHeap testPanorama 180 90 = Inr (opt, h1)
      \<and> cols (blurred opt) + leftBuffer opt < fst (fullSize opt)
      \<and> extractImage testLib h1 opt = Inr (R, h2) \<and> Mat_size R = (360, 180)"
    by auto
qed

text \<open>
  C3 (purity with respect to the inputs). The code does not have it. In
  \<^verbatim>\<open>extractImage\<close>, \<^verbatim>\<open>Mat croppedImage = Mat(optImage.blurred)\<close> copies the header
  and not the pixels, so \<^verbatim>\<open>copyTo\<close> pastes the focus tile into the storage of the
  argument: the pixel (0, 0) of the surround of \<open>pastedImage\<close> is (1, 1, 1) before the
  call and (9, 9, 9) after it. In the constructor of \<^verbatim>\<open>OptimizedImage\<close>,
  \<^verbatim>\<open>Mat(focused)\<close> shares storage likewise: encoding the test panorama at 180
  degrees (no wrap-around) gives a focus tile that is a view of the panorama, and a
  later write to the panorama shows through it.
\<close>

theorem decode_writes_into_its_argument:
  "(\<exists>R h'. extractImage testLib pastedHeap pastedImage = Inr (R, h')
      \<and> pixel pastedHeap (blurred pastedImage) 0 0 = Vec3 1 1 1
      \<and> pixel h' (blurred pastedImage) 0 0 = Vec3 9 9 9)
   \<and> (\<exists>opt h1. optimizeImage testLib testHeap testPanorama 180 90 = Inr (opt, h1)
      \<and> buf (focused opt) = buf testPanorama
      \<and> pixel h1 (focused opt) 0 0 = Vec3 165 75 0
      \<and> pixel (setTo h1 testPanorama 0) (focused opt) 0 0 = Vec3 0 0 0)"
proof
  show "\<exists>R h'. extractImage testLib pastedHeap pastedImage = Inr (R, h')
      \<and> pixel pastedHeap (blurred pastedImage) 0 0 = Vec3 1 1 1
      \<and> pixel h' (blurred pastedImage) 0 0 = Vec3 9 9 9"
    using extractImage_pasted by blast
next
  from optimizeImage_360x180 [of testPanorama 90 testLib testHeap 180]
  obtain opt h1 where enc: "optimizeImage testLib testHeap testPanorama 180 90 = Inr (opt, h1)"
    and v: "leftBuffer opt = 90" "focusCol opt = 75" "focusRow opt = 75"
      "cols (focused opt) = 30" "rows (focused opt) = 30" "buf (focused opt) = buf testPanorama"
    and w: "row0 (focused opt) = 75" "col0 (focused opt) = 165"
    by (auto simp: testPanorama_dims testPanorama_def clamp_def)
  have alloc: "buf testPanorama < length testHeap"
    by (simp add: testPanorama_def testHeap_def)
  from optimizeImage_focused_pixels [OF enc alloc]
  have fp: "\<And>r c. 0 \<le> c \<Longrightarrow> c < cols (focused opt) \<Longrightarrow>
      pixel h1 (focused opt) r c =
        pixel testHeap testPanorama (focusRow opt + r)
          ((leftBuffer opt + focusCol opt + c) mod cols testPanorama)"
    by blast
  have "pixel h1 (focused opt) 0 0 = pixel testHeap testPanorama 75 165"
    using fp [of 0 0] by (simp add: v testPanorama_dims)
  then have p: "pixel h1 (focused opt) 0 0 = Vec3 165 75 0"
    by (simp add: pixel_def testHeap_def testPanorama_def)
  from optimizeImage_heap [OF enc] obtain g where g: "h1 = testHeap @ g" by blast
  have s: "pixel (setTo h1 testPanorama 0) (focused opt) 0 0 = Vec3 0 0 0"
    by (simp add: setTo_def pixel_def v w g testHeap_def testPanorama_def inside_def zero_Vec3_def)
  from enc v p s show "\<exists>opt h1. optimizeImage testLib testHeap testPanorama 180 90 = Inr (opt, h1)
      \<and> buf (focused opt) = buf testPanorama
      \<and> pixel h1 (focused opt) 0 0 = Vec3 165 75 0
      \<and> pixel (setTo h1 testPanorama 0) (focused opt) 0 0 = Vec3 0 0 0"
    by blast
qed

text \<open>
  C5 (fixed fovea height), amended. Whenever \<^verbatim>\<open>optimizeImage\<close> returns a record, the
  focus tile has exactly \<open>2 * (focusHeight / 2)\<close> rows (integer division), where
  \<open>focusHeight\<close> is the value the code computes from the panorama height alone,
  \<^verbatim>\<open>(int)(V_FOCUS_ANGLE * (height / 180.0))\<close>; the vertical angle moves the tile,
  which stays inside the image, and never changes its height. The height is
  \<open>focusHeight\<close> when that is even and one row less when it is odd: for a panorama of
  90 rows \<open>focusHeight\<close> is 15 and the tile has 14 rows.
\<close>

theorem focused_height_fixed:
  assumes "optimizeImage lib h img angle vAngle = Inr (opt, h')"
  shows "\<exists>fh. focusHeightOf (rows img) = Inr fh \<and> rows (focused opt) = 2 * tdiv fh 2
     \<and> 0 \<le> focusRow opt \<and> focusRow opt + rows (focused opt) \<le> rows img"
  using optimizeImage_dims [OF assms] optimizeImage_inv [OF assms] by auto

theorem focused_height_fixed_witness:
  "\<exists>opt h'. optimizeImage testLib testHeap halfPanorama 0 0 = Inr (opt, h')
     \<and> (\<exists>fh. focusHeightOf (rows halfPanorama) = Inr fh \<and> rows (focused opt) = 2 * tdiv fh 2
           \<and> 0 \<le> focusRow opt \<and> focusRow opt + rows (focused opt) \<le> rows halfPanorama)"
proof -
  from optimizeImage_half obtain opt h'
    where enc: "optimizeImage testLib testHeap halfPanorama 0 0 = Inr (opt, h')" by blast
  from focused_height_fixed [OF enc] enc show ?thesis by blast
qed

theorem focused_height_counterexample:
  "\<exists>opt h' fh. optimizeImage testLib testHeap halfPanorama 0 0 = Inr (opt, h')
     \<and> focusHeightOf (rows halfPanorama) = Inr fh
     \<and> fh = (V_FOCUS_ANGLE * rows halfPanorama) div 180
     \<and> fh = 15 \<and> rows (focused opt) = 14 \<and> rows (focused opt) \<noteq> fh"
  using optimizeImage_half focusHeightOf_90
  by (auto simp: halfPanorama_def V_FOCUS_ANGLE_def)

text \<open>
  C6 (wrapped crop). For column indices \<open>L \<noteq> R\<close> in \<open>[0, W)\<close>,
  \<^verbatim>\<open>cropHorizontallyWrapped\<close> returns an image of width \<open>(R - L) mod W\<close> and of
  the height of its argument; for \<open>L < R\<close> its columns are the columns \<open>[L, R)\<close>,
  for \<open>L > R\<close> the columns \<open>[L, W)\<close> followed by the columns \<open>[0, R)\<close>.
\<close>

theorem wrapped_crop:
  assumes "0 \<le> L" "L < cols img" "0 \<le> R" "R < cols img" "L \<noteq> R"
  shows "\<exists>m h'. cropHorizontallyWrapped h img L R = Inr (m, h')
     \<and> cols m = (R - L) mod cols img \<and> rows m = rows img
     \<and> (L < R \<longrightarrow> (\<forall>r c. 0 \<le> c \<and> c < R - L \<longrightarrow> pixel h' m r c = pixel h img r (L + c)))
     \<and> (R < L \<longrightarrow> (\<forall>r c. 0 \<le> c \<and> c < cols img - L \<longrightarrow> pixel h' m r c = pixel h img r (L + c))
                \<and> (\<forall>r c. cols img - L \<le> c \<and> c < cols img - L + R \<longrightarrow>
                      pixel h' m r c = pixel h img r (c - (cols img - L))))"
proof (cases "L < R")
  case True
  have "(R - L) mod cols img = R - L" using assms True by simp
  then show ?thesis
    using assms True
    by (simp add: cropHorizontallyWrapped_def REQUIRES_def subMat_def pixel_def add.assoc)
next
  case False
  then have RL: "R < L" using assms by simp
  have "(R - L) mod cols img = (R - L + cols img) mod cols img" by simp
  also have "\<dots> = R - L + cols img" using assms RL by (intro mod_pos_pos_trivial) auto
  finally have w: "(R - L) mod cols img = cols img - L + R" by simp
  show ?thesis
    using assms RL w
    by (simp add: cropHorizontallyWrapped_def REQUIRES_def ASSERT_def subMat_def hconcat2_def
        pixel_def add.assoc)
qed

theorem wrapped_crop_witness:
  "\<exists>m h'. cropHorizontallyWrapped testHeap testPanorama 270 90 = Inr (m, h')
     \<and> cols m = 180 \<and> rows m = 180
     \<and> pixel h' m 5 0 = Vec3 270 5 0 \<and> pixel h' m 5 89 = Vec3 359 5 0
     \<and> pixel h' m 5 90 = Vec3 0 5 0 \<and> pixel h' m 5 179 = Vec3 89 5 0"
proof -
  from wrapped_crop [of 270 testPanorama 90 testHeap]
  obtain m h' where c: "cropHorizontallyWrapped testHeap testPanorama 270 90 = Inr (m, h')"
    "cols m = 180" "rows m = 180"
    and p1: "\<And>r c. 0 \<le> c \<Longrightarrow> c < 90 \<Longrightarrow> pixel h' m r c = pixel testHeap testPanorama r (270 + c)"
    and p2: "\<And>r c. 90 \<le> c \<Longrightarrow> c < 180 \<Longrightarrow> pixel h' m r c = pixel testHeap testPanorama r (c - 90)"
    by (auto simp: testPanorama_dims)
  have "pixel h' m 5 0 = Vec3 270 5 0" "pixel h' m 5 89 = Vec3 359 5 0"
    using p1 [of 0 5] p1 [of 89 5] by (simp_all add: pixel_def testHeap_def testPanorama_def)
  moreover have "pixel h' m 5 90 = Vec3 0 5 0" "pixel h' m 5 179 = Vec3 89 5 0"
    using p2 [of 90 5] p2 [of 179 5] by (simp_all add: pixel_def testHeap_def testPanorama_def)
  ultimately show ?thesis using c by blast
qed

text \<open>
  C7 (vertical-edge scenario), amended. Encoding the 360 by 180 test panorama at
  vertical angle 0, at any horizontal angle, gives \<open>focusRow = 0\<close> and
  \<open>focusRow + focusHeight = 30\<close>, with \<open>focusHeight = 30\<close>, which is both the value
  the code computes and \<open>V_FOCUS_ANGLE * 180 div 180\<close>; the tile has 30 rows. (15 is
  the clamped middle row of the tile, \<open>focusHeight / 2\<close>.)
\<close>

theorem vertical_edge_scenario:
  "\<exists>opt h' fh. optimizeImage lib h testPanorama angle 0 = Inr (opt, h')
     \<and> focusHeightOf (rows testPanorama) = Inr fh
     \<and> fh = (V_FOCUS_ANGLE * rows testPanorama) div 180
     \<and> focusRow opt = 0 \<and> focusRow opt + fh = 30 \<and> rows (focused opt) = fh"
  using optimizeImage_360x180 [of testPanorama 0 lib h angle] focusHeightOf_180
  by (auto simp: testPanorama_dims V_FOCUS_ANGLE_def clamp_def)

theorem vertical_edge_counterexample:
  "\<exists>opt h' fh. optimizeImage testLib testHeap testPanorama 0 0 = Inr (opt, h')
     \<and> focusHeightOf (rows testPanorama) = Inr fh
     \<and> fh = (V_FOCUS_ANGLE * rows testPanorama) div 180
     \<and> focusRow opt = 0 \<and> focusRow opt + fh = 30 \<and> focusRow opt + fh \<noteq> 15"
  using optimizeImage_360x180 [of testPanorama 0 testLib testHeap 0] focusHeightOf_180
  by (auto simp: testPanorama_dims V_FOCUS_ANGLE_def clamp_def)

text \<open>
  C9 (the encoder establishes the invariants of the record). Every record that
  \<^verbatim>\<open>optimizeImage\<close> returns for a panorama of \<open>W\<close> columns and \<open>H\<close> rows has
  \<open>0 \<le> focusCol\<close>, \<open>focusCol + fw \<le> cw\<close>, \<open>0 \<le> focusRow\<close>,
  \<open>focusRow + fh \<le> ch\<close>, \<open>cw \<le> W\<close>, \<open>ch \<le> H\<close>, \<open>0 \<le> leftBuffer < W\<close> and
  \<open>fullSize = (W, H)\<close>. (A panorama too small for its windows is refused by the
  encoder's own assertions, as the one by one panorama above.)
\<close>

theorem encoder_invariants:
  assumes "optimizeImage lib h img angle vAngle = Inr (opt, h')"
  shows "0 \<le> focusCol opt \<and> focusCol opt + cols (focused opt) \<le> cols (blurred opt)
     \<and> 0 \<le> focusRow opt \<and> focusRow opt + rows (focused opt) \<le> rows (blurred opt)
     \<and> cols (blurred opt) \<le> cols img \<and> rows (blurred opt) \<le> rows img
     \<and> 0 \<le> leftBuffer opt \<and> leftBuffer opt < cols img
     \<and> fullSize opt = (cols img, rows img)"
  using optimizeImage_inv [OF assms] .

theorem encoder_invariants_witness:
  "\<exists>opt h'. optimizeImage testLib testHeap testPanorama 0 90 = Inr (opt, h')
     \<and> 0 \<le> focusCol opt \<and> focusCol opt + cols (focused opt) \<le> cols (blurred opt)
     \<and> 0 \<le> focusRow opt \<and> focusRow opt + rows (focused opt) \<le> rows (blurred opt)
     \<and> cols (blurred opt) \<le> 360 \<and> rows (blurred opt) \<le> 180
     \<and> 0 \<le> leftBuffer opt \<and> leftBuffer opt < 360
     \<and> fullSize opt = (360, 180)"
proof -
  from optimizeImage_360x180 [of testPanorama 90 testLib testHeap 0]
  obtain opt h' where enc: "optimizeImage testLib testHeap testPanorama 0 90 = Inr (opt, h')"
    by (auto simp: testPanorama_dims)
  from encoder_invariants [OF enc] enc show ?thesis
    by (auto simp: testPanorama_dims)
qed

text \<open>
  C10 (the decoder's slices and assertions under the invariants of the record). For a
  record with \<open>0 \<le> focusRow\<close>, \<open>focusRow + fh \<le> ch\<close>, \<open>0 \<le> focusCol\<close>,
  \<open>focusCol + fw \<le> cw\<close>, \<open>cw \<le> W\<close> and \<open>0 \<le> leftBuffer < W\<close> (the dimensions of
  a matrix are not negative), the slice for the paste is inside the surround and
  \<^verbatim>\<open>uncropWrapped\<close> returns: each of its slices is in range and each of its
  \<^verbatim>\<open>ASSERT\<close>s holds, in the wrapped and in the contained branch. Its result has
  \<open>W\<close> columns and \<open>ch\<close> rows, so all that is left of \<^verbatim>\<open>extractImage\<close> is the
  closing \<^verbatim>\<open>ENSURES(fullImage.size() == optImage.fullSize)\<close>, which holds exactly
  when \<open>ch = H\<close>.
\<close>

theorem decoder_slices_and_assertions:
  assumes "0 \<le> focusRow opt" "focusRow opt + rows (focused opt) \<le> rows (blurred opt)"
    "0 \<le> focusCol opt" "focusCol opt + cols (focused opt) \<le> cols (blurred opt)"
    "cols (blurred opt) \<le> fst (fullSize opt)"
    "0 \<le> leftBuffer opt" "leftBuffer opt < fst (fullSize opt)"
    "0 \<le> rows (focused opt)" "0 \<le> cols (focused opt)"
  shows "\<exists>tmp R h'.
      subMat (blurred opt)
        (Range (focusRow opt) (focusRow opt + rows (focused opt)))
        (Range (focusCol opt) (focusCol opt + cols (focused opt))) = Inr tmp
    \<and> uncropWrapped lib (copyTo h (focused opt) tmp) (blurred opt)
          (fst (fullSize opt)) (leftBuffer opt) = Inr (R, h')
    \<and> cols R = fst (fullSize opt) \<and> rows R = rows (blurred opt)
    \<and> extractImage lib h opt = ENSURES (Mat_size R = fullSize opt) (Inr (R, h'))"
  using extractImage_steps [OF assms, of lib h] by blast

theorem decoder_slices_and_assertions_witness:
  "\<exists>tmp R h'.
      subMat (blurred pastedImage)
        (Range (focusRow pastedImage) (focusRow pastedImage + rows (focused pastedImage)))
        (Range (focusCol pastedImage) (focusCol pastedImage + cols (focused pastedImage))) = Inr tmp
    \<and> uncropWrapped testLib (copyTo pastedHeap (focused pastedImage) tmp) (blurred pastedImage)
          (fst (fullSize pastedImage)) (leftBuffer pastedImage) = Inr (R, h')
    \<and> cols R = 4 \<and> rows R = 2
    \<and> extractImage testLib pastedHeap pastedImage = Inr (R, h')"
  using decoder_slices_and_assertions [of pastedImage testLib pastedHeap]
  by (auto simp: pastedImage_def ENSURES_def Mat_size_def)

end
